theory Spec2Isabelle
  imports Main "HOL-Library.AList"
begin

section \<open>Units of the dataflow graph (units.py)\<close>

text \<open>
  A unit is a Python object; it is used as a dictionary key by identity, so a unit is
  named here by an identifier and the objects live in a store from identifiers to
  records. Python dictionaries keep their keys distinct and in insertion order; they
  are association lists, written to with \<open>AList.update\<close> (\<open>d[k] = v\<close>) and
  \<open>AList.delete\<close> (\<open>del d[k]\<close>).
\<close>

type_synonym uid = nat

subsection \<open>Python values and dictionaries\<close>

datatype pyval = PyNone | PyBool bool | PyInt int

fun truthy :: "pyval \<Rightarrow> bool" where
  "truthy PyNone = False"
| "truthy (PyBool b) = b"
| "truthy (PyInt n) = (n \<noteq> 0)"

datatype exn = KeyError | IndexError | Failure nat

text \<open>
  What a call does: it returns a value, raises, or waits for a lock that is held
  (\<open>Blocks\<close>: in a run of one thread it never returns).
\<close>

datatype 'a outcome = Returns 'a | Raises exn | Blocks

definition dict_has :: "'k \<Rightarrow> ('k \<times> 'v) list \<Rightarrow> bool" where
  "dict_has k d = (k \<in> fst ` set d)"

definition dict_keys :: "('k \<times> 'v) list \<Rightarrow> 'k list" where
  "dict_keys d = map fst d"

definition dict_values :: "('k \<times> 'v) list \<Rightarrow> 'v list" where
  "dict_values d = map snd d"

subsection \<open>Routing cells\<close>

text \<open>
  \<open>gate_block\<close>, \<open>gate_skip\<close>, \<open>gate_block_not\<close> and \<open>gate_skip_not\<close> are
  one-element lists whose element is a value or a zero-argument callable. A callable
  reads the state outside the graph (\<open>'w\<close>) at the moment it is called.
\<close>

datatype 'w cell = Plain pyval | Callable "'w \<Rightarrow> pyval"

fun callvle :: "'w cell \<Rightarrow> 'w \<Rightarrow> pyval" where
  "callvle (Callable f) w = f w"
| "callvle (Plain v) w = v"

text \<open>
  The condition written out in \<open>check_gate_and_run\<close> (on the skip pair) and in
  \<open>run_dependent\<close> (on the block pair):
  \<open>(callvle(a) and not callvle(b)) or (not callvle(a) and callvle(b))\<close>.
\<close>

definition gate_condition :: "'w cell \<Rightarrow> 'w cell \<Rightarrow> 'w \<Rightarrow> bool" where
  "gate_condition flag invert w =
     ((truthy (callvle flag w) \<and> \<not> truthy (callvle invert w)) \<or>
      (\<not> truthy (callvle flag w) \<and> truthy (callvle invert w)))"

subsection \<open>Units and the system\<close>

datatype unit_class = UnitClass | RepeaterClass

text \<open>
  \<open>initialize\<close> and \<open>run\<close> are the bodies a subclass gives: they act on the outside
  state and may raise. The locks \<open>gate_lock_\<close> and \<open>run_lock_\<close> (an Isabelle name
  cannot end with an underscore) are \<open>True\<close> while held.
\<close>

record 'w Unit =
  cls :: unit_class
  links_from :: "(uid \<times> bool) list"
  links_to :: "(uid \<times> bool) list"
  gate_block :: "'w cell"
  gate_skip :: "'w cell"
  gate_block_not :: "'w cell"
  gate_skip_not :: "'w cell"
  is_initialized :: bool
  gate_lock :: bool
  run_lock :: bool
  initialize :: "'w \<Rightarrow> exn option \<times> 'w"
  run :: "'w \<Rightarrow> exn option \<times> 'w"

datatype event = Initialize uid | Warning uid | Run uid

text \<open>
  \<open>pool\<close> is the class attribute \<open>Unit.pool_\<close>: \<open>None\<close> until the pool is built,
  then the tasks \<open>(dst, src)\<close> handed to \<open>callInThread\<close>, each standing for
  \<open>dst.check_gate_and_run(src)\<close>. \<open>events\<close> records the calls of the bodies and of
  the logger, in order.
\<close>

record 'w system =
  units :: "uid \<Rightarrow> 'w Unit"
  world :: 'w
  pool :: "(uid \<times> uid) list option"
  pool_lock :: bool
  events :: "event list"

definition set_links_from :: "uid \<Rightarrow> (uid \<times> bool) list \<Rightarrow> 'w system \<Rightarrow> 'w system" where
  "set_links_from u d s = s\<lparr>units := (units s)(u := (units s u)\<lparr>links_from := d\<rparr>)\<rparr>"

definition set_links_to :: "uid \<Rightarrow> (uid \<times> bool) list \<Rightarrow> 'w system \<Rightarrow> 'w system" where
  "set_links_to u d s = s\<lparr>units := (units s)(u := (units s u)\<lparr>links_to := d\<rparr>)\<rparr>"

definition set_gate_lock :: "uid \<Rightarrow> bool \<Rightarrow> 'w system \<Rightarrow> 'w system" where
  "set_gate_lock u b s = s\<lparr>units := (units s)(u := (units s u)\<lparr>gate_lock := b\<rparr>)\<rparr>"

definition set_run_lock :: "uid \<Rightarrow> bool \<Rightarrow> 'w system \<Rightarrow> 'w system" where
  "set_run_lock u b s = s\<lparr>units := (units s)(u := (units s u)\<lparr>run_lock := b\<rparr>)\<rparr>"

definition set_is_initialized :: "uid \<Rightarrow> bool \<Rightarrow> 'w system \<Rightarrow> 'w system" where
  "set_is_initialized u b s =
     s\<lparr>units := (units s)(u := (units s u)\<lparr>is_initialized := b\<rparr>)\<rparr>"

text \<open>
  \<open>Unit.__init__\<close> (with \<open>init_unpickled\<close>, which the logger's constructor calls):
  no links, the four cells hold \<open>0\<close>, not initialized, both locks free.
\<close>

definition new_unit ::
  "unit_class \<Rightarrow> ('w \<Rightarrow> exn option \<times> 'w) \<Rightarrow> ('w \<Rightarrow> exn option \<times> 'w) \<Rightarrow> 'w Unit" where
  "new_unit c i r =
     \<lparr>cls = c, links_from = [], links_to = [],
      gate_block = Plain (PyInt 0), gate_skip = Plain (PyInt 0),
      gate_block_not = Plain (PyInt 0), gate_skip_not = Plain (PyInt 0),
      is_initialized = False, gate_lock = False, run_lock = False,
      initialize = i, run = r\<rparr>"

text \<open>The bodies of the base class: \<open>pass\<close>.\<close>

definition pass :: "'w \<Rightarrow> exn option \<times> 'w" where
  "pass w = (None, w)"

definition new_system :: "'w \<Rightarrow> 'w system" where
  "new_system w =
     \<lparr>units = (\<lambda>_. new_unit UnitClass pass pass), world = w, pool = None,
      pool_lock = False, events = []\<rparr>"

subsection \<open>The gate\<close>

text \<open>
  \<open>Unit.open_gate\<close>. The loop that resets the flags assigns \<open>False\<close> under every key
  of \<open>links_from\<close>.
\<close>

definition reset_flags :: "uid \<Rightarrow> 'w system \<Rightarrow> 'w system" where
  "reset_flags self s =
     fold (\<lambda>k t. set_links_from self (AList.update k False (links_from (units t self))) t)
       (dict_keys (links_from (units s self))) s"

definition open_gate :: "uid \<Rightarrow> uid \<Rightarrow> 'w system \<Rightarrow> bool outcome \<times> 'w system" where
  "open_gate self src s =
     (if gate_lock (units s self) then (Blocks, s)
      else
        let s1 = set_gate_lock self True s in
        if length (links_from (units s1 self)) = 0
        then (Returns True, set_gate_lock self False s1)
        else
          let s2 = (if dict_has src (links_from (units s1 self))
                    then set_links_from self
                           (AList.update src True (links_from (units s1 self))) s1
                    else s1) in
          if \<not> list_all (\<lambda>v. v) (dict_values (links_from (units s2 self)))
          then (Returns False, set_gate_lock self False s2)
          else (Returns True, set_gate_lock self False (reset_flags self s2)))"

text \<open>\<open>Repeater.open_gate\<close>: no lock, no flag.\<close>

definition Repeater_open_gate :: "uid \<Rightarrow> uid \<Rightarrow> 'w system \<Rightarrow> bool outcome \<times> 'w system" where
  "Repeater_open_gate self src s = (Returns True, s)"

text \<open>The call \<open>u.open_gate(src)\<close>, which goes to the method of the class of \<open>u\<close>.\<close>

definition call_open_gate :: "uid \<Rightarrow> uid \<Rightarrow> 'w system \<Rightarrow> bool outcome \<times> 'w system" where
  "call_open_gate self src s =
     (case cls (units s self) of
        UnitClass \<Rightarrow> open_gate self src s
      | RepeaterClass \<Rightarrow> Repeater_open_gate self src s)"

text \<open>
  A sequence of notifications of one unit, one \<open>open_gate\<close> call after the other; the
  answers are collected. It stops at a call that does not return.
\<close>

fun notify :: "uid \<Rightarrow> uid list \<Rightarrow> 'w system \<Rightarrow> bool list \<times> 'w system" where
  "notify self [] s = ([], s)"
| "notify self (src # srcs) s =
     (case open_gate self src s of
        (Returns r, s1) \<Rightarrow> (case notify self srcs s1 of (rs, s2) \<Rightarrow> (r # rs, s2))
      | (_, s1) \<Rightarrow> ([], s1))"

text \<open>
  For stating what the gate does: the flags of a dictionary after the arrival of
  \<open>src\<close>, and after the arrivals of all of \<open>xs\<close>.
\<close>

definition marked :: "uid \<Rightarrow> (uid \<times> bool) list \<Rightarrow> (uid \<times> bool) list" where
  "marked src d = map (\<lambda>p. (fst p, fst p = src \<or> snd p)) d"

definition arrived :: "uid list \<Rightarrow> (uid \<times> bool) list \<Rightarrow> (uid \<times> bool) list" where
  "arrived xs d = map (\<lambda>p. (fst p, fst p \<in> set xs \<or> snd p)) d"

text \<open>For stating what a gate check leaves alone: \<open>t\<close> is \<open>s\<close> but for the flags
  and the gate lock of \<open>self\<close>.\<close>

definition gate_only :: "uid \<Rightarrow> 'w system \<Rightarrow> 'w system \<Rightarrow> bool" where
  "gate_only self s t = (\<exists>d b. t = set_gate_lock self b (set_links_from self d s))"

subsection \<open>Links\<close>

text \<open>\<open>Unit.link_from\<close>: two assignments, no lock.\<close>

definition link_from :: "uid \<Rightarrow> uid \<Rightarrow> 'w system \<Rightarrow> 'w system" where
  "link_from self src s =
     (let s1 = set_links_from self (AList.update src False (links_from (units s self))) s
      in set_links_to src (AList.update self False (links_to (units s1 src))) s1)"

text \<open>\<open>Unit.unlink_from\<close>: each deletion is guarded by a membership test.\<close>

definition unlink_from :: "uid \<Rightarrow> uid \<Rightarrow> 'w system \<Rightarrow> unit outcome \<times> 'w system" where
  "unlink_from self src s =
     (if gate_lock (units s self) then (Blocks, s)
      else
        let s1 = set_gate_lock self True s;
            s2 = (if dict_has self (links_to (units s1 src))
                  then set_links_to src (AList.delete self (links_to (units s1 src))) s1
                  else s1);
            s3 = (if dict_has src (links_from (units s2 self))
                  then set_links_from self (AList.delete src (links_from (units s2 self))) s2
                  else s2)
        in (Returns (), set_gate_lock self False s3))"

text \<open>
  \<open>Unit.unlink_from_all\<close>. Its deletions are not guarded: \<open>del d[k]\<close> raises
  \<open>KeyError\<close> when \<open>k\<close> is not a key, and the exception leaves the method with the
  gate lock held (there is no \<open>finally\<close>).
\<close>

fun del_links_to :: "uid \<Rightarrow> uid list \<Rightarrow> 'w system \<Rightarrow> unit outcome \<times> 'w system" where
  "del_links_to self [] s = (Returns (), s)"
| "del_links_to self (src # rest) s =
     (if dict_has self (links_to (units s src))
      then del_links_to self rest
             (set_links_to src (AList.delete self (links_to (units s src))) s)
      else (Raises KeyError, s))"

fun del_links_from :: "uid \<Rightarrow> uid list \<Rightarrow> 'w system \<Rightarrow> unit outcome \<times> 'w system" where
  "del_links_from self [] s = (Returns (), s)"
| "del_links_from self (dst # rest) s =
     (if dict_has self (links_from (units s dst))
      then del_links_from self rest
             (set_links_from dst (AList.delete self (links_from (units s dst))) s)
      else (Raises KeyError, s))"

definition unlink_from_all :: "uid \<Rightarrow> 'w system \<Rightarrow> unit outcome \<times> 'w system" where
  "unlink_from_all self s =
     (if gate_lock (units s self) then (Blocks, s)
      else
        let s1 = set_gate_lock self True s in
        case del_links_to self (dict_keys (links_from (units s1 self))) s1 of
          (Returns _, s2) \<Rightarrow>
            (case del_links_from self (dict_keys (links_to (units s2 self))) s2 of
               (Returns _, s3) \<Rightarrow>
                 (Returns (),
                  set_gate_lock self False (set_links_to self [] (set_links_from self [] s3)))
             | (Raises e, s3) \<Rightarrow> (Raises e, s3)
             | (Blocks, s3) \<Rightarrow> (Blocks, s3))
        | (Raises e, s2) \<Rightarrow> (Raises e, s2)
        | (Blocks, s2) \<Rightarrow> (Blocks, s2))"

text \<open>A graph is built by a sequence of these three operations.\<close>

datatype link_op = LinkFrom uid uid | UnlinkFrom uid uid | UnlinkFromAll uid

fun apply_link_op :: "link_op \<Rightarrow> 'w system \<Rightarrow> unit outcome \<times> 'w system" where
  "apply_link_op (LinkFrom self src) s = (Returns (), link_from self src s)"
| "apply_link_op (UnlinkFrom self src) s = unlink_from self src s"
| "apply_link_op (UnlinkFromAll self) s = unlink_from_all self s"

fun apply_link_ops :: "link_op list \<Rightarrow> 'w system \<Rightarrow> unit outcome \<times> 'w system" where
  "apply_link_ops [] s = (Returns (), s)"
| "apply_link_ops (x # xs) s =
     (case apply_link_op x s of
        (Returns _, s1) \<Rightarrow> apply_link_ops xs s1
      | (Raises e, s1) \<Rightarrow> (Raises e, s1)
      | (Blocks, s1) \<Rightarrow> (Blocks, s1))"

text \<open>The invariant of the two maps: \<open>B\<close> is a key of \<open>A.links_to\<close> exactly when
  \<open>A\<close> is a key of \<open>B.links_from\<close>.\<close>

definition bidirectional :: "'w system \<Rightarrow> bool" where
  "bidirectional s =
     (\<forall>a b. dict_has b (links_to (units s a)) = dict_has a (links_from (units s b)))"

text \<open>Freshly constructed units: no links, the gate locks free.\<close>

definition freshly_constructed :: "'w system \<Rightarrow> bool" where
  "freshly_constructed s =
     (\<forall>u. links_from (units s u) = [] \<and> links_to (units s u) = [] \<and>
          \<not> gate_lock (units s u))"

text \<open>The invariant that the three operations keep: besides the two maps mirroring each
  other, every gate lock is free and the keys of every map are distinct.\<close>

definition links_ok :: "'w system \<Rightarrow> bool" where
  "links_ok s =
     (bidirectional s \<and>
      (\<forall>u. \<not> gate_lock (units s u) \<and> distinct (dict_keys (links_from (units s u))) \<and>
           distinct (dict_keys (links_to (units s u)))))"

subsection \<open>Dispatch\<close>

text \<open>
  \<open>Unit.thread_pool\<close>: the pool is built on the first call, under the class lock,
  which a \<open>finally\<close> releases. A pool is the list of the tasks submitted to it; a
  new one is empty.
\<close>

definition thread_pool :: "'w system \<Rightarrow> unit outcome \<times> 'w system" where
  "thread_pool s =
     (if pool_lock s then (Blocks, s)
      else
        let s1 = s\<lparr>pool_lock := True\<rparr>;
            s2 = (if pool s1 = None then s1\<lparr>pool := Some []\<rparr> else s1)
        in (Returns (), s2\<lparr>pool_lock := False\<rparr>))"

text \<open>
  Modelled from the spec: the module \<open>thread_pool\<close> (the class \<open>ThreadPool\<close> and
  its \<open>callInThread\<close>) is not part of the sources. Of the pool only "submit a
  fire-and-forget task" is used, with no result awaited and no order among the tasks
  promised: \<open>callInThread\<close> adds the task to the pool and returns.
\<close>

definition callInThread :: "uid \<times> uid \<Rightarrow> 'w system \<Rightarrow> 'w system" where
  "callInThread task s = s\<lparr>pool := map_option (\<lambda>ts. ts @ [task]) (pool s)\<rparr>"

text \<open>The tasks submitted so far.\<close>

definition tasks :: "'w system \<Rightarrow> (uid \<times> uid) list" where
  "tasks s = (case pool s of None \<Rightarrow> [] | Some ts \<Rightarrow> ts)"

text \<open>
  The effective flags of a unit: the condition on its own block pair and on its own
  skip pair, evaluated now.
\<close>

definition effective_block :: "'w system \<Rightarrow> uid \<Rightarrow> bool" where
  "effective_block s u =
     gate_condition (gate_block (units s u)) (gate_block_not (units s u)) (world s)"

definition effective_skip :: "'w system \<Rightarrow> uid \<Rightarrow> bool" where
  "effective_skip s u =
     gate_condition (gate_skip (units s u)) (gate_skip_not (units s u)) (world s)"

text \<open>\<open>Unit.run_dependent\<close>: the loop over the keys of \<open>links_to\<close>.\<close>

fun run_dependent_loop :: "uid \<Rightarrow> uid list \<Rightarrow> 'w system \<Rightarrow> unit outcome \<times> 'w system" where
  "run_dependent_loop self [] s = (Returns (), s)"
| "run_dependent_loop self (dst # rest) s =
     (if effective_block s dst
      then run_dependent_loop self rest s
      else
        case thread_pool s of
          (Returns _, s1) \<Rightarrow> run_dependent_loop self rest (callInThread (dst, self) s1)
        | (Raises e, s1) \<Rightarrow> (Raises e, s1)
        | (Blocks, s1) \<Rightarrow> (Blocks, s1))"

definition run_dependent :: "uid \<Rightarrow> 'w system \<Rightarrow> unit outcome \<times> 'w system" where
  "run_dependent self s = run_dependent_loop self (dict_keys (links_to (units s self))) s"

text \<open>For stating what \<open>run_dependent\<close> does: the tasks \<open>ts\<close> handed to the pool.\<close>

definition submit :: "(uid \<times> uid) list \<Rightarrow> 'w system \<Rightarrow> 'w system" where
  "submit ts s = (if ts = [] then s else s\<lparr>pool := Some (tasks s @ ts)\<rparr>)"

text \<open>
  The \<open>try\<close> block of \<open>check_gate_and_run\<close>: \<open>initialize()\<close> when the unit is not
  initialized (then the warning and the flag), then \<open>run()\<close>. A body that raises ends
  the block there. (\<open>run\<close> is wrapped by \<open>measure_time\<close>, which adds the elapsed wall
  time to \<open>Unit.timers\<close> when the body returns; the clock is not modelled. The
  logger's \<open>warning\<close> is recorded as an event.)
\<close>

definition call_initialize :: "uid \<Rightarrow> 'w system \<Rightarrow> unit outcome \<times> 'w system" where
  "call_initialize self s =
     (case initialize (units s self) (world s) of
        (None, w) \<Rightarrow> (Returns (), s\<lparr>world := w, events := events s @ [Initialize self]\<rparr>)
      | (Some e, w) \<Rightarrow> (Raises e, s\<lparr>world := w, events := events s @ [Initialize self]\<rparr>))"

definition call_run :: "uid \<Rightarrow> 'w system \<Rightarrow> unit outcome \<times> 'w system" where
  "call_run self s =
     (case run (units s self) (world s) of
        (None, w) \<Rightarrow> (Returns (), s\<lparr>world := w, events := events s @ [Run self]\<rparr>)
      | (Some e, w) \<Rightarrow> (Raises e, s\<lparr>world := w, events := events s @ [Run self]\<rparr>))"

definition warning :: "uid \<Rightarrow> 'w system \<Rightarrow> 'w system" where
  "warning self s = s\<lparr>events := events s @ [Warning self]\<rparr>"

definition try_block :: "uid \<Rightarrow> 'w system \<Rightarrow> unit outcome \<times> 'w system" where
  "try_block self s =
     (if \<not> is_initialized (units s self)
      then
        case call_initialize self s of
          (Returns _, s1) \<Rightarrow> call_run self (set_is_initialized self True (warning self s1))
        | (Raises e, s1) \<Rightarrow> (Raises e, s1)
        | (Blocks, s1) \<Rightarrow> (Blocks, s1)
      else call_run self s)"

text \<open>\<open>Unit.check_gate_and_run\<close>.\<close>

definition check_gate_and_run :: "uid \<Rightarrow> uid \<Rightarrow> 'w system \<Rightarrow> unit outcome \<times> 'w system" where
  "check_gate_and_run self src s =
     (case call_open_gate self src s of
        (Returns False, s1) \<Rightarrow> (Returns (), s1)
      | (Raises e, s1) \<Rightarrow> (Raises e, s1)
      | (Blocks, s1) \<Rightarrow> (Blocks, s1)
      | (Returns True, s1) \<Rightarrow>
          if effective_skip s1 self then run_dependent self s1
          else if run_lock (units s1 self) then (Returns (), s1)
          else
            case try_block self (set_run_lock self True s1) of
              (Returns _, s2) \<Rightarrow> run_dependent self (set_run_lock self False s2)
            | (Raises e, s2) \<Rightarrow> (Raises e, set_run_lock self False s2)
            | (Blocks, s2) \<Rightarrow> (Blocks, set_run_lock self False s2))"

text \<open>
  \<open>Unit.initialize_dependent\<close>: the loop over the keys of \<open>links_to\<close>, with the
  recursive call inside. The first argument bounds the depth of the nested calls that
  are still allowed; \<open>None\<close> says that the bound was too small.
\<close>

fun initialize_dependent_loop ::
  "nat \<Rightarrow> uid \<Rightarrow> uid list \<Rightarrow> 'w system \<Rightarrow> (unit outcome \<times> 'w system) option" where
  "initialize_dependent_loop n self [] s = Some (Returns (), s)"
| "initialize_dependent_loop n self (dst # rest) s =
     (if is_initialized (units s dst) then initialize_dependent_loop n self rest s
      else
        case call_open_gate dst self s of
          (Returns False, s1) \<Rightarrow> initialize_dependent_loop n self rest s1
        | (Raises e, s1) \<Rightarrow> Some (Raises e, s1)
        | (Blocks, s1) \<Rightarrow> Some (Blocks, s1)
        | (Returns True, s1) \<Rightarrow>
            (case call_initialize dst s1 of
               (Raises e, s2) \<Rightarrow> Some (Raises e, s2)
             | (Blocks, s2) \<Rightarrow> Some (Blocks, s2)
             | (Returns _, s2) \<Rightarrow>
                 (case n of
                    0 \<Rightarrow> None
                  | Suc m \<Rightarrow>
                      (case initialize_dependent_loop m dst
                              (dict_keys (links_to (units (set_is_initialized dst True s2) dst)))
                              (set_is_initialized dst True s2) of
                         None \<Rightarrow> None
                       | Some (Returns _, s3) \<Rightarrow> initialize_dependent_loop n self rest s3
                       | Some (Raises e, s3) \<Rightarrow> Some (Raises e, s3)
                       | Some (Blocks, s3) \<Rightarrow> Some (Blocks, s3)))))"

definition initialize_dependent ::
  "nat \<Rightarrow> uid \<Rightarrow> 'w system \<Rightarrow> (unit outcome \<times> 'w system) option" where
  "initialize_dependent n self s =
     initialize_dependent_loop n self (dict_keys (links_to (units s self))) s"

text \<open>
  For stating what the traversal does between a state \<open>s\<close> and a later state \<open>t\<close>:
  the pool and the links to successors are as before; a unit that was initialized in
  \<open>s\<close> is the same in \<open>t\<close>; the events added are calls of \<open>initialize()\<close> on
  units that were not initialized in \<open>s\<close>; and when the outcome \<open>r\<close> is a normal
  return, those units are initialized in \<open>t\<close>. \<open>not_initialized R s\<close> are the units
  of \<open>R\<close> not yet initialized, and \<open>closed_under_links R s\<close> says that the successors
  of the units of \<open>R\<close> are in \<open>R\<close>.
\<close>

definition initialization_only :: "unit outcome \<Rightarrow> 'w system \<Rightarrow> 'w system \<Rightarrow> bool" where
  "initialization_only r s t =
     (pool t = pool s \<and> pool_lock t = pool_lock s \<and>
      (\<forall>u. links_to (units t u) = links_to (units s u)) \<and>
      (\<forall>u. is_initialized (units s u) \<longrightarrow> units t u = units s u) \<and>
      (\<exists>us. events t = events s @ map Initialize us \<and>
            (\<forall>u\<in>set us. \<not> is_initialized (units s u)) \<and>
            (r = Returns () \<longrightarrow> (\<forall>u\<in>set us. is_initialized (units t u)))))"

definition not_initialized :: "uid set \<Rightarrow> 'w system \<Rightarrow> uid set" where
  "not_initialized R s = {u \<in> R. \<not> is_initialized (units s u)}"

definition closed_under_links :: "uid set \<Rightarrow> 'w system \<Rightarrow> bool" where
  "closed_under_links R s = (\<forall>u\<in>R. set (dict_keys (links_to (units s u))) \<subseteq> R)"

text \<open>A unit object placed in the store (for building examples).\<close>

definition construct :: "uid \<Rightarrow> 'w Unit \<Rightarrow> 'w system \<Rightarrow> 'w system" where
  "construct u r s = s\<lparr>units := (units s)(u := r)\<rparr>"

text \<open>
  An example: \<open>2 \<rightarrow> 3 \<rightarrow> 4\<close>, \<open>2 \<rightarrow> 5\<close> with \<open>5\<close> already initialized, and \<open>6\<close>
  with the two predecessors \<open>2\<close> and \<open>7\<close>.
\<close>

definition example_graph :: "unit system" where
  "example_graph = link_from 6 7 (link_from 6 2 (link_from 5 2 (link_from 4 3 (link_from 3 2
        (construct 5 ((new_unit UnitClass pass pass)\<lparr>is_initialized := True\<rparr>)
           (new_system ()))))))"

subsection \<open>Pickling\<close>

text \<open>
  \<open>Pickleable.__getstate__\<close> works on \<open>__dict__\<close>, the dictionary from attribute
  names to values. Of a value it asks only whether it is callable.
\<close>

datatype attr =
  ANone | AValue pyval | AText string | ALinks "(uid \<times> bool) list" | ALock bool
  | ACallable nat | AObject nat

fun callable :: "attr \<Rightarrow> bool" where
  "callable (ACallable f) = True"
| "callable v = False"

type_synonym obj_dict = "(string \<times> attr) list"

text \<open>\<open>k[len(k) - 1]\<close> is \<open>k[-1]\<close> on the empty string, which raises.\<close>

fun getstate_loop :: "obj_dict \<Rightarrow> obj_dict \<Rightarrow> obj_dict outcome" where
  "getstate_loop [] state = Returns state"
| "getstate_loop ((k, v) # items) state =
     (if k = [] then Raises IndexError
      else if k ! (length k - 1) \<noteq> CHR ''_'' \<and> \<not> callable v
           then getstate_loop items (AList.update k v state)
           else getstate_loop items (AList.update k ANone state))"

definition getstate :: "obj_dict \<Rightarrow> obj_dict outcome" where
  "getstate d = getstate_loop d []"

text \<open>
  \<open>init_unpickled\<close>. \<open>Pickleable.init_unpickled\<close> calls the method of the logger
  when there is one; the module \<open>logger\<close> is not part of the sources, so that method
  is a parameter. \<open>Unit.init_unpickled\<close> then makes two new locks, clears the flag
  and enters the unit in \<open>Unit.timers\<close>, a dictionary of the class.
\<close>

definition Pickleable_init_unpickled :: "(obj_dict \<Rightarrow> obj_dict) option \<Rightarrow> obj_dict \<Rightarrow> obj_dict" where
  "Pickleable_init_unpickled logger d = (case logger of None \<Rightarrow> d | Some f \<Rightarrow> f d)"

definition init_unpickled ::
  "(obj_dict \<Rightarrow> obj_dict) option \<Rightarrow> uid \<Rightarrow> obj_dict \<times> (uid \<times> int) list
     \<Rightarrow> obj_dict \<times> (uid \<times> int) list" where
  "init_unpickled logger self p =
     (let d0 = Pickleable_init_unpickled logger (fst p);
          d1 = AList.update ''gate_lock_'' (ALock False) d0;
          d2 = AList.update ''run_lock_'' (ALock False) d1;
          d3 = AList.update ''is_initialized'' (AValue (PyBool False)) d2
      in (d3, AList.update self 0 (snd p)))"

text \<open>\<open>Pickleable.__setstate__\<close>: \<open>__dict__.update(state)\<close>, then \<open>init_unpickled\<close>.\<close>

definition dict_update :: "('k \<times> 'v) list \<Rightarrow> ('k \<times> 'v) list \<Rightarrow> ('k \<times> 'v) list" where
  "dict_update state d = fold (\<lambda>(k, v). AList.update k v) state d"

definition setstate ::
  "(obj_dict \<Rightarrow> obj_dict) option \<Rightarrow> uid \<Rightarrow> obj_dict \<Rightarrow> obj_dict \<times> (uid \<times> int) list
     \<Rightarrow> obj_dict \<times> (uid \<times> int) list" where
  "setstate logger self state p = init_unpickled logger self (dict_update state (fst p), snd p)"

text \<open>What \<open>__getstate__\<close> stores under a name.\<close>

definition persisted :: "string \<times> attr \<Rightarrow> string \<times> attr" where
  "persisted p =
     (fst p, if last (fst p) = CHR ''_'' \<or> callable (snd p) then ANone else snd p)"

section \<open>Properties\<close>

subsection \<open>The gate is an AND-join\<close>

lemma set_links_from_same:
  "links_from (units s u) = d \<Longrightarrow> set_links_from u d s = s"
  by (auto simp: set_links_from_def)

lemma set_links_from_twice:
  "set_links_from u d (set_links_from u d' s) = set_links_from u d s"
  by (simp add: set_links_from_def)

lemma links_from_set_links_from:
  "links_from (units (set_links_from u d s) v) = (if v = u then d else links_from (units s v))"
  by (simp add: set_links_from_def)

lemma gate_lock_set_links_from:
  "gate_lock (units (set_links_from u d s) v) = gate_lock (units s v)"
  by (simp add: set_links_from_def)

lemma update_as_map:
  "distinct (map fst d) \<Longrightarrow> k \<in> fst ` set d \<Longrightarrow>
   AList.update k x d = map (\<lambda>p. (fst p, if fst p = k then x else snd p)) d"
proof (induction d)
  case Nil
  then show ?case by simp
next
  case (Cons a d)
  show ?case
  proof (cases "fst a = k")
    case True
    then have "k \<notin> fst ` set d" using Cons.prems by auto
    then have "map (\<lambda>p. (fst p, if fst p = k then x else snd p)) d = d"
      by (intro map_idI) auto
    with True show ?thesis by (cases a) simp
  next
    case False
    with Cons show ?thesis by (cases a) auto
  qed
qed

lemma fold_reset:
  "fold (\<lambda>k t. set_links_from self (AList.update k False (links_from (units t self))) t) ks s
   = set_links_from self (fold (\<lambda>k. AList.update k False) ks (links_from (units s self))) s"
  by (induction ks arbitrary: s)
     (simp_all add: set_links_from_same set_links_from_twice links_from_set_links_from)

lemma fold_update_False:
  "distinct (map fst d) \<Longrightarrow> set ks \<subseteq> fst ` set d \<Longrightarrow>
   fold (\<lambda>k. AList.update k False) ks d = map (\<lambda>p. (fst p, snd p \<and> fst p \<notin> set ks)) d"
proof (induction ks arbitrary: d)
  case Nil
  then show ?case by simp
next
  case (Cons k ks)
  let ?d = "map (\<lambda>p. (fst p, if fst p = k then False else snd p)) d"
  have u: "AList.update k False d = ?d"
    using Cons.prems by (simp add: update_as_map)
  have m: "map fst ?d = map fst d" by (simp add: comp_def)
  have "distinct (map fst ?d)" "set ks \<subseteq> fst ` set ?d"
    using Cons.prems unfolding m set_map[symmetric] by auto
  from Cons.IH[OF this] show ?case
    by (auto simp: u)
qed

lemma reset_flags_eq:
  assumes "distinct (dict_keys (links_from (units s self)))"
  shows "reset_flags self s =
         set_links_from self (map (\<lambda>p. (fst p, False)) (links_from (units s self))) s"
proof -
  let ?d = "links_from (units s self)"
  have "fold (\<lambda>k. AList.update k False) (map fst ?d) ?d
        = map (\<lambda>p. (fst p, snd p \<and> fst p \<notin> set (map fst ?d))) ?d"
    using assms by (intro fold_update_False) (auto simp: dict_keys_def)
  also have "\<dots> = map (\<lambda>p. (fst p, False)) ?d"
    by (rule map_cong) auto
  finally show ?thesis
    by (simp add: reset_flags_def fold_reset dict_keys_def)
qed

lemma marked_keys: "map fst (marked src d) = map fst d"
  by (simp add: marked_def comp_def)

lemma marked_update:
  assumes "distinct (map fst d)"
  shows "(if dict_has src d then AList.update src True d else d) = marked src d"
proof (cases "dict_has src d")
  case True
  then show ?thesis
    using assms by (simp add: dict_has_def update_as_map marked_def cong: map_cong)
next
  case False
  then have "marked src d = d"
    unfolding marked_def dict_has_def by (intro map_idI) auto
  with False show ?thesis by simp
qed

lemma unit_gate_lock_same: "gate_lock r = b \<Longrightarrow> r\<lparr>gate_lock := b\<rparr> = r"
  by (cases r) simp

lemma gate_lock_bracket:
  "\<not> gate_lock (units s u) \<Longrightarrow>
   set_gate_lock u False (set_links_from u d (set_gate_lock u True s)) = set_links_from u d s"
  by (simp add: set_gate_lock_def set_links_from_def unit_gate_lock_same)

lemma gate_lock_bracket_id:
  "\<not> gate_lock (units s u) \<Longrightarrow> set_gate_lock u False (set_gate_lock u True s) = s"
  by (simp add: set_gate_lock_def unit_gate_lock_same)

lemma links_from_set_gate_lock:
  "links_from (units (set_gate_lock u b s) v) = links_from (units s v)"
  by (simp add: set_gate_lock_def)

lemma list_all_values: "list_all (\<lambda>v. v) (dict_values d) = list_all snd d"
  by (simp add: dict_values_def list_all_iff)

lemma reset_flags_set:
  "distinct (map fst d) \<Longrightarrow>
   reset_flags self (set_links_from self d s) = set_links_from self (map (\<lambda>p. (fst p, False)) d) s"
  by (simp add: reset_flags_eq links_from_set_links_from dict_keys_def set_links_from_twice)

lemma map_False_marked: "map (\<lambda>p. (fst p, False)) (marked src d) = map (\<lambda>p. (fst p, False)) d"
  by (simp add: marked_def comp_def)

lemma open_gate_eq:
  assumes free: "\<not> gate_lock (units s self)"
    and dict: "distinct (dict_keys (links_from (units s self)))"
  shows "open_gate self src s =
    (let d = links_from (units s self) in
     if d = [] then (Returns True, s)
     else if list_all snd (marked src d)
          then (Returns True, set_links_from self (map (\<lambda>p. (fst p, False)) d) s)
          else (Returns False, set_links_from self (marked src d) s))"
proof -
  let ?d = "links_from (units s self)"
  let ?s1 = "set_gate_lock self True s"
  have d: "distinct (map fst ?d)" using dict by (simp add: dict_keys_def)
  then have dm: "distinct (map fst (marked src ?d))" by (simp add: marked_keys)
  have s2: "(if dict_has src (links_from (units ?s1 self))
             then set_links_from self (AList.update src True (links_from (units ?s1 self))) ?s1
             else ?s1) = set_links_from self (marked src ?d) ?s1"
    using marked_update[OF d, of src]
    by (auto simp: set_links_from_same links_from_set_gate_lock)
  show ?thesis
    unfolding open_gate_def Let_def s2
    using free dm
    by (simp add: links_from_set_gate_lock list_all_values reset_flags_set map_False_marked
        links_from_set_links_from gate_lock_bracket gate_lock_bracket_id)
qed

lemma arrived_Nil: "arrived [] d = d"
  by (simp add: arrived_def)

lemma arrived_Cons: "arrived xs (marked x d) = arrived (x # xs) d"
  by (auto simp: arrived_def marked_def)

lemma arrived_keys: "map fst (arrived xs d) = map fst d"
  by (simp add: arrived_def comp_def)

lemma marked_le_arrived: "list_all snd (marked x d) \<Longrightarrow> list_all snd (arrived (x # xs) d)"
  by (auto simp: arrived_def marked_def list_all_iff)

lemma notify_closed:
  assumes "\<not> gate_lock (units s self)"
    and "distinct (map fst (links_from (units s self)))"
    and "\<not> list_all snd (arrived xs (links_from (units s self)))"
  shows "notify self xs s =
         (replicate (length xs) False,
          set_links_from self (arrived xs (links_from (units s self))) s)"
  using assms
proof (induction xs arbitrary: s)
  case Nil
  then show ?case by (simp add: arrived_Nil set_links_from_same)
next
  case (Cons x xs)
  let ?d = "links_from (units s self)"
  let ?s1 = "set_links_from self (marked x ?d) s"
  have ne: "?d \<noteq> []" using Cons.prems(3) by (auto simp: arrived_def)
  have nm: "\<not> list_all snd (marked x ?d)"
    using Cons.prems(3) marked_le_arrived by blast
  have og: "open_gate self x s = (Returns False, ?s1)"
    using Cons.prems(1,2) ne nm by (simp add: open_gate_eq dict_keys_def)
  have "notify self xs ?s1 =
        (replicate (length xs) False,
         set_links_from self (arrived xs (links_from (units ?s1 self))) ?s1)"
    using Cons.prems
    by (intro Cons.IH)
       (simp_all add: gate_lock_set_links_from links_from_set_links_from marked_keys arrived_Cons)
  then show ?case
    by (simp add: og links_from_set_links_from arrived_Cons set_links_from_twice)
qed

lemma notify_append:
  "notify self (xs @ ys) s =
     (case notify self xs s of
        (rs, s1) \<Rightarrow>
          if length rs = length xs
          then (case notify self ys s1 of (rs', s2) \<Rightarrow> (rs @ rs', s2))
          else (rs, s1))"
  by (induction xs arbitrary: s) (auto split: prod.splits outcome.splits)

lemma marked_arrived: "marked x (arrived xs d) = arrived (xs @ [x]) d"
  by (auto simp: arrived_def marked_def)

lemma map_False_arrived: "map (\<lambda>p. (fst p, False)) (arrived xs d) = map (\<lambda>p. (fst p, False)) d"
  by (simp add: arrived_def comp_def)

lemma arrived_eq_Nil: "arrived xs d = [] \<longleftrightarrow> d = []"
  by (simp add: arrived_def)

lemma notify_round:
  assumes "\<not> gate_lock (units s self)"
    and "distinct (map fst (links_from (units s self)))"
    and "\<not> list_all snd (arrived xs (links_from (units s self)))"
    and "list_all snd (arrived (xs @ [x]) (links_from (units s self)))"
  shows "notify self (xs @ [x]) s =
         (replicate (length xs) False @ [True],
          set_links_from self (map (\<lambda>p. (fst p, False)) (links_from (units s self))) s)"
proof -
  let ?d = "links_from (units s self)"
  let ?s1 = "set_links_from self (arrived xs ?d) s"
  have ne: "?d \<noteq> []" using assms(3) by (auto simp: arrived_def)
  have c: "notify self xs s = (replicate (length xs) False, ?s1)"
    using assms(1-3) by (rule notify_closed)
  have "open_gate self x ?s1 =
        (Returns True, set_links_from self (map (\<lambda>p. (fst p, False)) ?d) s)"
    using assms(1,2,4) ne
    by (simp add: open_gate_eq dict_keys_def gate_lock_set_links_from links_from_set_links_from
        arrived_keys marked_arrived map_False_arrived set_links_from_twice arrived_eq_Nil)
  then show ?thesis
    by (simp add: notify_append c)
qed

lemma arrived_all_iff:
  "list_all snd (arrived xs d) \<longleftrightarrow> (\<forall>p\<in>set d. fst p \<in> set xs \<or> snd p)"
  by (auto simp: arrived_def list_all_iff)

lemma notify_complete_round:
  assumes free: "\<not> gate_lock (units s self)"
    and dict: "distinct (dict_keys (links_from (units s self)))"
    and ne: "links_from (units s self) \<noteq> []"
    and clear: "list_all (\<lambda>v. \<not> v) (dict_values (links_from (units s self)))"
    and xs: "distinct xs" "set xs = set (dict_keys (links_from (units s self)))"
  shows "notify self xs s =
         (replicate (length (links_from (units s self)) - 1) False @ [True], s)"
proof -
  let ?d = "links_from (units s self)"
  have d: "distinct (map fst ?d)" using dict by (simp add: dict_keys_def)
  have "xs \<noteq> []" using ne xs(2) by (auto simp: dict_keys_def)
  then obtain ys x where ys: "xs = ys @ [x]" by (metis rev_exhaust)
  have len: "length xs = length ?d"
    using xs d by (metis dict_keys_def distinct_card length_map)
  have x: "x \<in> fst ` set ?d" "x \<notin> set ys"
    using xs ys by (auto simp: dict_keys_def)
  have "\<not> (\<forall>p\<in>set ?d. fst p \<in> set ys \<or> snd p)"
    using x clear by (auto simp: dict_values_def list_all_iff)
  then have nc: "\<not> list_all snd (arrived ys ?d)"
    by (simp add: arrived_all_iff)
  have al: "list_all snd (arrived (ys @ [x]) ?d)"
    using xs(2) ys by (auto simp: arrived_all_iff dict_keys_def)
  have same: "map (\<lambda>p. (fst p, False)) ?d = ?d"
    using clear by (intro map_idI) (auto simp: dict_values_def list_all_iff prod_eq_iff)
  show ?thesis
    using notify_round[OF free d nc al] len ys
    by (simp add: same set_links_from_same)
qed

lemma notify_incomplete:
  assumes free: "\<not> gate_lock (units s self)"
    and dict: "distinct (dict_keys (links_from (units s self)))"
    and clear: "list_all (\<lambda>v. \<not> v) (dict_values (links_from (units s self)))"
    and xs: "length xs < length (links_from (units s self))"
  shows "fst (notify self xs s) = replicate (length xs) False"
proof -
  let ?d = "links_from (units s self)"
  have d: "distinct (map fst ?d)" using dict by (simp add: dict_keys_def)
  have "card (set (map fst ?d)) = length ?d"
    using distinct_card[OF d] by simp
  then have "card (set xs) < card (set (map fst ?d))"
    using xs card_length[of xs] by linarith
  then have "\<not> set (map fst ?d) \<subseteq> set xs"
    by (meson List.finite_set card_mono not_less)
  then obtain k where "k \<in> fst ` set ?d" "k \<notin> set xs" by auto
  then have "\<not> (\<forall>p\<in>set ?d. fst p \<in> set xs \<or> snd p)"
    using clear by (auto simp: dict_values_def list_all_iff)
  then have "\<not> list_all snd (arrived xs ?d)"
    by (simp add: arrived_all_iff)
  from notify_closed[OF free d this] show ?thesis by simp
qed

text \<open>
  Claim C1. \<open>Unit.open_gate(src)\<close> is the AND-join barrier. With the gate lock free
  and \<open>links_from\<close> a dictionary: when \<open>links_from\<close> is empty it returns true
  and changes nothing; otherwise it marks the flag of \<open>src\<close> when \<open>src\<close> is a key,
  returns false (keeping the marks) while some flag is still false, and else resets
  every flag to false and returns true. So for a unit with \<open>N \<ge> 1\<close> predecessors
  whose flags are all false, notifications by the \<open>N\<close> predecessors, each once and in
  any order, give \<open>N - 1\<close> times false and then once true, and leave the unit as
  it was; and fewer than \<open>N\<close> notifications, whoever sends them, give only false.
\<close>

theorem open_gate_and_join:
  assumes free: "\<not> gate_lock (units s self)"
    and dict: "distinct (dict_keys (links_from (units s self)))"
  shows
    "(links_from (units s self) = [] \<longrightarrow> open_gate self src s = (Returns True, s)) \<and>
     (links_from (units s self) \<noteq> [] \<longrightarrow>
        open_gate self src s =
          (if list_all snd (marked src (links_from (units s self)))
           then (Returns True,
                 set_links_from self
                   (map (\<lambda>p. (fst p, False)) (links_from (units s self))) s)
           else (Returns False,
                 set_links_from self (marked src (links_from (units s self))) s))) \<and>
     (\<forall>xs::uid list. links_from (units s self) \<noteq> [] \<and>
           list_all (\<lambda>v. \<not> v) (dict_values (links_from (units s self))) \<and>
           distinct xs \<and> set xs = set (dict_keys (links_from (units s self))) \<longrightarrow>
           notify self xs s =
             (replicate (length (links_from (units s self)) - 1) False @ [True], s)) \<and>
     (\<forall>xs::uid list. list_all (\<lambda>v. \<not> v) (dict_values (links_from (units s self))) \<and>
           length xs < length (links_from (units s self)) \<longrightarrow>
           fst (notify self xs s) = replicate (length xs) False)"
proof (intro conjI allI impI)
  assume "links_from (units s self) = []"
  then show "open_gate self src s = (Returns True, s)"
    using open_gate_eq[OF free dict, of src] by simp
next
  assume "links_from (units s self) \<noteq> []"
  then show "open_gate self src s =
          (if list_all snd (marked src (links_from (units s self)))
           then (Returns True,
                 set_links_from self
                   (map (\<lambda>p. (fst p, False)) (links_from (units s self))) s)
           else (Returns False,
                 set_links_from self (marked src (links_from (units s self))) s))"
    using open_gate_eq[OF free dict, of src] by simp
next
  fix xs :: "uid list"
  assume "links_from (units s self) \<noteq> [] \<and>
           list_all (\<lambda>v. \<not> v) (dict_values (links_from (units s self))) \<and>
           distinct xs \<and> set xs = set (dict_keys (links_from (units s self)))"
  then show "notify self xs s =
             (replicate (length (links_from (units s self)) - 1) False @ [True], s)"
    using notify_complete_round[OF free dict] by blast
next
  fix xs :: "uid list"
  assume "list_all (\<lambda>v. \<not> v) (dict_values (links_from (units s self))) \<and>
           length xs < length (links_from (units s self))"
  then show "fst (notify self xs s) = replicate (length xs) False"
    using notify_incomplete[OF free dict] by blast
qed

lemma links_from_joined:
  "links_from (units (link_from 2 4 (link_from 2 3 (new_system ()))) 2) = [(3, False), (4, False)]"
  by (simp add: link_from_def new_system_def new_unit_def set_links_from_def set_links_to_def)

lemma gate_lock_joined:
  "\<not> gate_lock (units (link_from 2 4 (link_from 2 3 (new_system ()))) 2)"
  by (simp add: link_from_def new_system_def new_unit_def set_links_from_def set_links_to_def)

theorem open_gate_and_join_witness:
  "fst (notify 2 [4, 3] (link_from 2 4 (link_from 2 3 (new_system ())))) = [False, True] \<and>
   fst (notify 2 [3, 4] (link_from 2 4 (link_from 2 3 (new_system ())))) = [False, True] \<and>
   fst (notify 2 [4] (link_from 2 4 (link_from 2 3 (new_system ())))) = [False] \<and>
   fst (open_gate 2 3 (link_from 2 4 (link_from 2 3 (new_system ())))) = Returns False \<and>
   open_gate 5 3 (new_system ()) = (Returns True, new_system ())"
proof -
  let ?s = "link_from 2 4 (link_from 2 3 (new_system ()))"
  have d: "distinct (dict_keys (links_from (units ?s 2)))"
    by (simp add: links_from_joined dict_keys_def)
  note j = open_gate_and_join[OF gate_lock_joined d, of 3]
  note round = j[THEN conjunct2, THEN conjunct2, THEN conjunct1, rule_format]
  note fewer = j[THEN conjunct2, THEN conjunct2, THEN conjunct2, rule_format]
  have a: "fst (notify 2 [4, 3] ?s) = [False, True]"
    using round[of "[4, 3]"]
    by (simp add: links_from_joined dict_values_def dict_keys_def insert_commute)
  have b: "fst (notify 2 [3, 4] ?s) = [False, True]"
    using round[of "[3, 4]"]
    by (simp add: links_from_joined dict_values_def dict_keys_def)
  have c: "fst (notify 2 [4] ?s) = [False]"
    using fewer[of "[4]"] by (simp add: links_from_joined dict_values_def)
  have e: "fst (open_gate 2 3 ?s) = Returns False"
    using j[THEN conjunct2, THEN conjunct1] by (simp add: links_from_joined marked_def)
  have "\<not> gate_lock (units (new_system ()) 5)"
    "distinct (dict_keys (links_from (units (new_system ()) 5)))"
    by (simp_all add: new_system_def new_unit_def dict_keys_def)
  from open_gate_and_join[OF this, of 3]
  have f: "open_gate 5 3 (new_system ()) = (Returns True, new_system ())"
    by (simp add: new_system_def new_unit_def)
  from a b c e f show ?thesis by simp
qed

subsection \<open>Routing and dispatch\<close>

text \<open>
  Claim C5. For the skip pair and for the block pair the decision is the exclusive or
  of the two resolved cells: the condition as the source writes it equals
  \<open>raw \<noteq> invert\<close> on the truth values. In particular flag and invert both true
  decide as flag and invert both false. A cell that holds a callable is called when
  the decision is taken; a plain value is used as it is. (A callable is a read of
  the outside state: called again within one decision it gives the same value.)
\<close>

theorem gate_condition_xor:
  "gate_condition flag invert w = (truthy (callvle flag w) \<noteq> truthy (callvle invert w)) \<and>
   effective_skip s u =
     (truthy (callvle (gate_skip (units s u)) (world s)) \<noteq>
      truthy (callvle (gate_skip_not (units s u)) (world s))) \<and>
   effective_block s u =
     (truthy (callvle (gate_block (units s u)) (world s)) \<noteq>
      truthy (callvle (gate_block_not (units s u)) (world s))) \<and>
   gate_condition (Plain (PyBool True)) (Plain (PyBool True)) w =
     gate_condition (Plain (PyBool False)) (Plain (PyBool False)) w \<and>
   callvle (Callable f) w = f w \<and> callvle (Plain v) w = v"
  by (auto simp: gate_condition_def effective_skip_def effective_block_def)

text \<open>
  Claim C10. For a unit of class \<open>Repeater\<close> and every \<open>src\<close>, \<open>open_gate(src)\<close>
  returns true and changes nothing: the flags of its predecessors stay as they are,
  whatever they are, and no lock is taken.
\<close>

theorem Repeater_gate_always_open:
  "cls (units s self) = RepeaterClass \<Longrightarrow> call_open_gate self src s = (Returns True, s)"
  by (simp add: call_open_gate_def Repeater_open_gate_def)

theorem Repeater_gate_always_open_witness:
  "call_open_gate 2 3
     (construct 2 ((new_unit RepeaterClass pass pass)
                     \<lparr>links_from := [(3, False), (4, False)], gate_lock := True\<rparr>)
        (new_system ()))
   = (Returns True,
      construct 2 ((new_unit RepeaterClass pass pass)
                     \<lparr>links_from := [(3, False), (4, False)], gate_lock := True\<rparr>)
        (new_system ()))"
  by (rule Repeater_gate_always_open) (simp add: construct_def new_unit_def)

lemma effective_block_pool [simp]:
  "effective_block (s\<lparr>pool := p\<rparr>) u = effective_block s u"
  by (simp add: effective_block_def)

lemma thread_pool_free:
  "\<not> pool_lock s \<Longrightarrow>
   thread_pool s = (Returns (), if pool s = None then s\<lparr>pool := Some []\<rparr> else s)"
  by (cases s) (auto simp: thread_pool_def Let_def)

lemma run_dependent_loop_eq:
  "\<not> pool_lock s \<Longrightarrow>
   run_dependent_loop self ds s =
     (Returns (), submit (map (\<lambda>dst. (dst, self)) (filter (\<lambda>dst. \<not> effective_block s dst) ds)) s)"
proof (induction ds arbitrary: s)
  case Nil
  then show ?case by (simp add: submit_def)
next
  case (Cons d ds)
  show ?case
  proof (cases "effective_block s d")
    case True
    then show ?thesis using Cons by simp
  next
    case False
    let ?s1 = "callInThread (d, self) (if pool s = None then s\<lparr>pool := Some []\<rparr> else s)"
    have s1: "?s1 = s\<lparr>pool := Some (tasks s @ [(d, self)])\<rparr>"
      by (auto simp: callInThread_def tasks_def)
    have "\<not> pool_lock ?s1" using Cons.prems by (simp add: s1)
    from Cons.IH[OF this] False Cons.prems show ?thesis
      by (simp add: thread_pool_free s1 submit_def tasks_def)
  qed
qed

lemma gate_touch_id:
  "set_gate_lock self (gate_lock (units s self))
     (set_links_from self (links_from (units s self)) s) = s"
  by (simp add: set_gate_lock_def set_links_from_def)

lemma gate_lock_over:
  "set_gate_lock self b (set_links_from self d (set_gate_lock self b' s)) =
   set_gate_lock self b (set_links_from self d s)"
  "set_gate_lock self b (set_gate_lock self b' s) = set_gate_lock self b s"
  by (simp_all add: set_gate_lock_def set_links_from_def)

lemma gate_only_refl: "gate_only self s s"
  unfolding gate_only_def by (metis gate_touch_id)

lemma gate_only_lock: "gate_only self s t \<Longrightarrow> gate_only self s (set_gate_lock self b t)"
  unfolding gate_only_def by (clarsimp simp: gate_lock_over) blast

lemma gate_only_links: "gate_only self s t \<Longrightarrow> gate_only self s (set_links_from self d t)"
  unfolding gate_only_def
  by (metis gate_touch_id links_from_set_gate_lock gate_lock_over(1) set_links_from_twice
      gate_lock_set_links_from)

lemma gate_only_reset: "gate_only self s t \<Longrightarrow> gate_only self s (reset_flags self t)"
  by (simp add: reset_flags_def fold_reset gate_only_links)

lemma open_gate_frame: "gate_only self s (snd (open_gate self src s))"
  by (simp add: open_gate_def Let_def gate_only_refl gate_only_lock gate_only_links
      gate_only_reset)

lemma call_open_gate_frame: "gate_only self s (snd (call_open_gate self src s))"
  by (cases "cls (units s self)")
     (simp_all add: call_open_gate_def Repeater_open_gate_def open_gate_frame gate_only_refl)

lemma gate_frame_fields:
  assumes "gate_only self s s1"
  shows "world s1 = world s" "pool s1 = pool s" "pool_lock s1 = pool_lock s"
    "events s1 = events s" "tasks s1 = tasks s"
    "is_initialized (units s1 u) = is_initialized (units s u)"
    "run_lock (units s1 u) = run_lock (units s u)"
    "links_to (units s1 u) = links_to (units s u)"
    "initialize (units s1 u) = initialize (units s u)"
    "run (units s1 u) = run (units s u)"
    "cls (units s1 u) = cls (units s u)"
    "effective_skip s1 u = effective_skip s u"
    "effective_block s1 u = effective_block s u"
    "u \<noteq> self \<Longrightarrow> units s1 u = units s u"
  using assms
  by (auto simp: gate_only_def set_gate_lock_def set_links_from_def tasks_def
      effective_skip_def effective_block_def split: if_splits)

lemma run_dependent_eq:
  "\<not> pool_lock s \<Longrightarrow>
   run_dependent self s =
     (Returns (),
      submit (map (\<lambda>dst. (dst, self))
                (filter (\<lambda>dst. \<not> effective_block s dst) (dict_keys (links_to (units s self))))) s)"
  by (simp add: run_dependent_def run_dependent_loop_eq)

lemma submit_fields:
  "units (submit ts s) = units s" "world (submit ts s) = world s"
  "events (submit ts s) = events s" "tasks (submit ts s) = tasks s @ ts"
  "pool_lock (submit ts s) = pool_lock s"
  by (simp_all add: submit_def tasks_def)

text \<open>
  Claim C4. \<open>run_dependent\<close> (with the lock of the pool free) hands to the pool, in
  the order of \<open>links_to\<close>, the task \<open>dst.check_gate_and_run(self)\<close> for exactly
  the successors \<open>dst\<close> whose effective block flag is false; for a successor whose
  effective block flag is true nothing is submitted. No unit changes: no gate is
  checked and no body runs inside \<open>run_dependent\<close>.
\<close>

theorem run_dependent_submits:
  assumes "\<not> pool_lock s"
  shows "fst (run_dependent self s) = Returns () \<and>
         tasks (snd (run_dependent self s)) =
           tasks s @ map (\<lambda>dst. (dst, self))
                       (filter (\<lambda>dst. \<not> effective_block s dst)
                          (dict_keys (links_to (units s self)))) \<and>
         units (snd (run_dependent self s)) = units s \<and>
         world (snd (run_dependent self s)) = world s \<and>
         events (snd (run_dependent self s)) = events s"
  using assms by (simp add: run_dependent_eq submit_fields)

lemma run_dependent_loop_units:
  "units (snd (run_dependent_loop self ds s)) = units s"
proof (induction ds arbitrary: s)
  case Nil
  then show ?case by simp
next
  case (Cons d ds)
  show ?case
  proof (cases "effective_block s d \<or> pool_lock s")
    case True
    then show ?thesis using Cons by (auto simp: thread_pool_def)
  next
    case False
    then show ?thesis
      by (simp add: thread_pool_free Cons callInThread_def)
  qed
qed

lemma run_dependent_units: "units (snd (run_dependent self s)) = units s"
  by (simp add: run_dependent_def run_dependent_loop_units)

lemma gate_passed:
  assumes "fst (call_open_gate self src s) = Returns True"
  obtains s1 where "call_open_gate self src s = (Returns True, s1)" "gate_only self s s1"
  using assms call_open_gate_frame[of self s src]
  by (cases "call_open_gate self src s") auto

text \<open>
  Claim C3. When the gate lets \<open>check_gate_and_run\<close> pass and the effective skip
  flag of the unit is true, the call is \<open>run_dependent\<close> on the state the gate
  left: no body is called (the events and the outside state are unchanged, the units
  are as the gate left them) and the successors that are not blocked are submitted.
\<close>

theorem skipped_unit_passes_on:
  assumes gate: "fst (call_open_gate self src s) = Returns True"
    and skip: "effective_skip s self"
    and pool: "\<not> pool_lock s"
  shows "check_gate_and_run self src s = run_dependent self (snd (call_open_gate self src s)) \<and>
         fst (check_gate_and_run self src s) = Returns () \<and>
         events (snd (check_gate_and_run self src s)) = events s \<and>
         world (snd (check_gate_and_run self src s)) = world s \<and>
         units (snd (check_gate_and_run self src s)) = units (snd (call_open_gate self src s)) \<and>
         tasks (snd (check_gate_and_run self src s)) =
           tasks s @ map (\<lambda>dst. (dst, self))
                       (filter (\<lambda>dst. \<not> effective_block s dst)
                          (dict_keys (links_to (units s self))))"
proof -
  from gate obtain s1 where s1: "call_open_gate self src s = (Returns True, s1)"
    and g: "gate_only self s s1" by (rule gate_passed)
  note f = gate_frame_fields[OF g]
  have c: "check_gate_and_run self src s = run_dependent self s1"
    using skip by (simp add: check_gate_and_run_def s1 f)
  have p: "\<not> pool_lock s1" using pool by (simp add: f)
  have e: "(\<lambda>dst. \<not> effective_block s1 dst) = (\<lambda>dst. \<not> effective_block s dst)"
    by (simp add: f)
  show ?thesis
    by (simp add: c s1 run_dependent_eq[OF p] submit_fields f e)
qed

text \<open>
  Claim C2. When the gate lets \<open>check_gate_and_run\<close> pass, the effective skip flag
  is false and \<open>run_lock_\<close> is held, the call returns at once with the state the
  gate left: no \<open>initialize()\<close>, no \<open>run()\<close>, nothing submitted to the pool,
  \<open>is_initialized\<close> as before, the lock still held by its holder.
\<close>

theorem duplicate_trigger_dropped:
  assumes gate: "fst (call_open_gate self src s) = Returns True"
    and skip: "\<not> effective_skip s self"
    and held: "run_lock (units s self)"
  shows "check_gate_and_run self src s = (Returns (), snd (call_open_gate self src s)) \<and>
         events (snd (check_gate_and_run self src s)) = events s \<and>
         world (snd (check_gate_and_run self src s)) = world s \<and>
         pool (snd (check_gate_and_run self src s)) = pool s \<and>
         is_initialized (units (snd (check_gate_and_run self src s)) self) =
           is_initialized (units s self) \<and>
         run_lock (units (snd (check_gate_and_run self src s)) self)"
proof -
  from gate obtain s1 where s1: "call_open_gate self src s = (Returns True, s1)"
    and g: "gate_only self s s1" by (rule gate_passed)
  note f = gate_frame_fields[OF g]
  show ?thesis
    using skip held by (simp add: check_gate_and_run_def s1 f)
qed

lemma run_lock_fields:
  "is_initialized (units (set_run_lock u b s) v) = is_initialized (units s v)"
  "initialize (units (set_run_lock u b s) v) = initialize (units s v)"
  "run (units (set_run_lock u b s) v) = run (units s v)"
  "world (set_run_lock u b s) = world s"
  "events (set_run_lock u b s) = events s"
  "pool (set_run_lock u b s) = pool s"
  "run_lock (units (set_run_lock u b s) u) = b"
  by (simp_all add: set_run_lock_def)

text \<open>
  Claim C6. The gate lets \<open>check_gate_and_run\<close> pass, the effective skip flag is
  false and \<open>run_lock_\<close> is free. If \<open>initialize()\<close> raises, the exception reaches
  the caller, \<open>is_initialized\<close> stays false, \<open>run()\<close> is not called and nothing is
  submitted. If \<open>run()\<close> raises (after an initialization that succeeded, or on a
  unit already initialized), the exception reaches the caller and nothing is
  submitted. On every path \<open>run_lock_\<close> is free when the call ends.
\<close>

theorem failure_in_body:
  assumes gate: "fst (call_open_gate self src s) = Returns True"
    and skip: "\<not> effective_skip s self"
    and free: "\<not> run_lock (units s self)"
  shows
    "(let t = snd (check_gate_and_run self src s) in
      (\<not> is_initialized (units s self) \<and>
       fst (initialize (units s self) (world s)) = Some e \<longrightarrow>
         fst (check_gate_and_run self src s) = Raises e \<and>
         \<not> is_initialized (units t self) \<and> \<not> run_lock (units t self) \<and>
         pool t = pool s \<and> events t = events s @ [Initialize self]) \<and>
      (\<not> is_initialized (units s self) \<and>
       fst (initialize (units s self) (world s)) = None \<and>
       fst (run (units s self) (snd (initialize (units s self) (world s)))) = Some e \<longrightarrow>
         fst (check_gate_and_run self src s) = Raises e \<and>
         is_initialized (units t self) \<and> \<not> run_lock (units t self) \<and>
         pool t = pool s \<and> events t = events s @ [Initialize self, Warning self, Run self]) \<and>
      (is_initialized (units s self) \<and>
       fst (run (units s self) (world s)) = Some e \<longrightarrow>
         fst (check_gate_and_run self src s) = Raises e \<and>
         is_initialized (units t self) \<and> \<not> run_lock (units t self) \<and>
         pool t = pool s \<and> events t = events s @ [Run self]) \<and>
      \<not> run_lock (units t self))"
proof -
  from gate obtain s1 where s1: "call_open_gate self src s = (Returns True, s1)"
    and g: "gate_only self s s1" by (rule gate_passed)
  note f = gate_frame_fields[OF g]
  let ?s2 = "set_run_lock self True s1"
  have c: "check_gate_and_run self src s =
           (case try_block self ?s2 of
              (Returns _, s2) \<Rightarrow> run_dependent self (set_run_lock self False s2)
            | (Raises e, s2) \<Rightarrow> (Raises e, set_run_lock self False s2)
            | (Blocks, s2) \<Rightarrow> (Blocks, set_run_lock self False s2))"
    using skip free by (simp add: check_gate_and_run_def s1 f)
  have released: "\<not> run_lock (units (snd (check_gate_and_run self src s)) self)"
    unfolding c
    by (auto simp: run_dependent_units run_lock_fields split: prod.splits outcome.splits)
  have a: "fst (check_gate_and_run self src s) = Raises e \<and>
         \<not> is_initialized (units (snd (check_gate_and_run self src s)) self) \<and>
         pool (snd (check_gate_and_run self src s)) = pool s \<and>
         events (snd (check_gate_and_run self src s)) = events s @ [Initialize self]"
    if "\<not> is_initialized (units s self)" "fst (initialize (units s self) (world s)) = Some e"
    using that unfolding c
    by (cases "initialize (units s self) (world s)")
       (simp add: try_block_def call_initialize_def run_lock_fields f set_run_lock_def)
  have b: "fst (check_gate_and_run self src s) = Raises e \<and>
         is_initialized (units (snd (check_gate_and_run self src s)) self) \<and>
         pool (snd (check_gate_and_run self src s)) = pool s \<and>
         events (snd (check_gate_and_run self src s)) =
           events s @ [Initialize self, Warning self, Run self]"
    if "\<not> is_initialized (units s self)" "fst (initialize (units s self) (world s)) = None"
      "fst (run (units s self) (snd (initialize (units s self) (world s)))) = Some e"
    using that unfolding c
    by (cases "initialize (units s self) (world s)";
        cases "run (units s self) (snd (initialize (units s self) (world s)))")
       (simp add: try_block_def call_initialize_def call_run_def warning_def
         set_is_initialized_def run_lock_fields f set_run_lock_def)
  have d: "fst (check_gate_and_run self src s) = Raises e \<and>
         is_initialized (units (snd (check_gate_and_run self src s)) self) \<and>
         pool (snd (check_gate_and_run self src s)) = pool s \<and>
         events (snd (check_gate_and_run self src s)) = events s @ [Run self]"
    if "is_initialized (units s self)" "fst (run (units s self) (world s)) = Some e"
    using that unfolding c
    by (cases "run (units s self) (world s)")
       (simp add: try_block_def call_run_def run_lock_fields f set_run_lock_def)
  show ?thesis
    unfolding Let_def using released a b d by blast
qed

lemmas example_defs =
  link_from_def construct_def new_system_def new_unit_def set_links_from_def set_links_to_def
  set_gate_lock_def effective_block_def effective_skip_def gate_condition_def tasks_def
  dict_keys_def dict_has_def dict_values_def Let_def call_open_gate_def open_gate_def pass_def

theorem run_dependent_submits_witness:
  "fst (run_dependent 2
         (link_from 5 2 (link_from 4 2 (link_from 3 2
           (construct 3 ((new_unit UnitClass pass pass)\<lparr>gate_block := Plain (PyBool True)\<rparr>)
           (construct 5 ((new_unit UnitClass pass pass)
                           \<lparr>gate_block := Plain (PyInt 1),
                            gate_block_not := Callable (\<lambda>w. PyBool w)\<rparr>)
           (new_system True))))))) = Returns () \<and>
   tasks (snd (run_dependent 2
         (link_from 5 2 (link_from 4 2 (link_from 3 2
           (construct 3 ((new_unit UnitClass pass pass)\<lparr>gate_block := Plain (PyBool True)\<rparr>)
           (construct 5 ((new_unit UnitClass pass pass)
                           \<lparr>gate_block := Plain (PyInt 1),
                            gate_block_not := Callable (\<lambda>w. PyBool w)\<rparr>)
           (new_system True)))))))) = [(4, 2), (5, 2)]"
proof -
  let ?s = "link_from 5 2 (link_from 4 2 (link_from 3 2
           (construct 3 ((new_unit UnitClass pass pass)\<lparr>gate_block := Plain (PyBool True)\<rparr>)
           (construct 5 ((new_unit UnitClass pass pass)
                           \<lparr>gate_block := Plain (PyInt 1),
                            gate_block_not := Callable (\<lambda>w. PyBool w)\<rparr>)
           (new_system True)))))"
  have p: "\<not> pool_lock ?s" by (simp add: example_defs)
  have k: "links_to (units ?s 2) = [(3, False), (4, False), (5, False)]"
    by (simp add: example_defs)
  have b: "effective_block ?s 3" "\<not> effective_block ?s 4" "\<not> effective_block ?s 5"
    by (simp_all add: example_defs)
  have t: "tasks ?s = []" by (simp add: example_defs)
  from run_dependent_submits[OF p, of 2] show ?thesis
    by (simp add: k b t dict_keys_def)
qed

theorem skipped_unit_passes_on_witness:
  "fst (check_gate_and_run 2 9
         (link_from 4 2
           (construct 2 ((new_unit UnitClass pass pass)\<lparr>gate_skip := Plain (PyBool True)\<rparr>)
           (new_system ())))) = Returns () \<and>
   events (snd (check_gate_and_run 2 9
         (link_from 4 2
           (construct 2 ((new_unit UnitClass pass pass)\<lparr>gate_skip := Plain (PyBool True)\<rparr>)
           (new_system ()))))) = [] \<and>
   tasks (snd (check_gate_and_run 2 9
         (link_from 4 2
           (construct 2 ((new_unit UnitClass pass pass)\<lparr>gate_skip := Plain (PyBool True)\<rparr>)
           (new_system ()))))) = [(4, 2)]"
proof -
  let ?s = "link_from 4 2
           (construct 2 ((new_unit UnitClass pass pass)\<lparr>gate_skip := Plain (PyBool True)\<rparr>)
           (new_system ()))"
  have g: "fst (call_open_gate 2 9 ?s) = Returns True" by (simp add: example_defs)
  have sk: "effective_skip ?s 2" by (simp add: example_defs)
  have p: "\<not> pool_lock ?s" by (simp add: example_defs)
  have k: "links_to (units ?s 2) = [(4, False)]" by (simp add: example_defs)
  have b: "\<not> effective_block ?s 4" by (simp add: example_defs)
  have t: "tasks ?s = []" "events ?s = []" by (simp_all add: example_defs)
  from skipped_unit_passes_on[OF g sk p, THEN conjunct2] show ?thesis
    by (simp add: k b t dict_keys_def)
qed

theorem duplicate_trigger_dropped_witness:
  "fst (check_gate_and_run 2 9
         (link_from 4 2
           (construct 2 ((new_unit UnitClass pass pass)\<lparr>run_lock := True\<rparr>) (new_system ()))))
     = Returns () \<and>
   events (snd (check_gate_and_run 2 9
         (link_from 4 2
           (construct 2 ((new_unit UnitClass pass pass)\<lparr>run_lock := True\<rparr>) (new_system ())))))
     = [] \<and>
   pool (snd (check_gate_and_run 2 9
         (link_from 4 2
           (construct 2 ((new_unit UnitClass pass pass)\<lparr>run_lock := True\<rparr>) (new_system ())))))
     = None \<and>
   \<not> is_initialized (units (snd (check_gate_and_run 2 9
         (link_from 4 2
           (construct 2 ((new_unit UnitClass pass pass)\<lparr>run_lock := True\<rparr>) (new_system ())))))
      2)"
proof -
  let ?s = "link_from 4 2
           (construct 2 ((new_unit UnitClass pass pass)\<lparr>run_lock := True\<rparr>) (new_system ()))"
  have g: "fst (call_open_gate 2 9 ?s) = Returns True" by (simp add: example_defs)
  have sk: "\<not> effective_skip ?s 2" by (simp add: example_defs)
  have h: "run_lock (units ?s 2)" by (simp add: example_defs)
  have t: "pool ?s = None" "events ?s = []" "\<not> is_initialized (units ?s 2)"
    by (simp_all add: example_defs)
  note r = duplicate_trigger_dropped[OF g sk h]
  have "fst (check_gate_and_run 2 9 ?s) = Returns ()"
    by (subst r[THEN conjunct1]) simp
  with r[THEN conjunct2] show ?thesis
    by (simp add: t)
qed

theorem failure_in_body_witness:
  "fst (check_gate_and_run 2 9
         (construct 2 (new_unit UnitClass (\<lambda>w. (Some (Failure 7), w)) pass) (new_system ())))
     = Raises (Failure 7) \<and>
   \<not> is_initialized (units (snd (check_gate_and_run 2 9
         (construct 2 (new_unit UnitClass (\<lambda>w. (Some (Failure 7), w)) pass) (new_system ()))))
      2) \<and>
   \<not> run_lock (units (snd (check_gate_and_run 2 9
         (construct 2 (new_unit UnitClass (\<lambda>w. (Some (Failure 7), w)) pass) (new_system ()))))
      2) \<and>
   pool (snd (check_gate_and_run 2 9
         (construct 2 (new_unit UnitClass (\<lambda>w. (Some (Failure 7), w)) pass) (new_system ()))))
     = None \<and>
   fst (check_gate_and_run 2 9
         (link_from 3 2
           (construct 2 (new_unit UnitClass pass (\<lambda>w. (Some (Failure 8), w))) (new_system ()))))
     = Raises (Failure 8) \<and>
   is_initialized (units (snd (check_gate_and_run 2 9
         (link_from 3 2
           (construct 2 (new_unit UnitClass pass (\<lambda>w. (Some (Failure 8), w))) (new_system ())))))
      2) \<and>
   \<not> run_lock (units (snd (check_gate_and_run 2 9
         (link_from 3 2
           (construct 2 (new_unit UnitClass pass (\<lambda>w. (Some (Failure 8), w))) (new_system ())))))
      2) \<and>
   pool (snd (check_gate_and_run 2 9
         (link_from 3 2
           (construct 2 (new_unit UnitClass pass (\<lambda>w. (Some (Failure 8), w))) (new_system ())))))
     = None"
proof -
  let ?s = "construct 2 (new_unit UnitClass (\<lambda>w. (Some (Failure 7), w)) pass) (new_system ())"
  have g: "fst (call_open_gate 2 9 ?s) = Returns True" by (simp add: example_defs)
  have sk: "\<not> effective_skip ?s 2" by (simp add: example_defs)
  have h: "\<not> run_lock (units ?s 2)" by (simp add: example_defs)
  have i: "\<not> is_initialized (units ?s 2)"
    "fst (initialize (units ?s 2) (world ?s)) = Some (Failure 7)" "pool ?s = None"
    by (simp_all add: example_defs)
  note a = failure_in_body[OF g sk h, of "Failure 7", unfolded Let_def, THEN conjunct1,
      rule_format, OF conjI[OF i(1) i(2)]]
  let ?t = "link_from 3 2
           (construct 2 (new_unit UnitClass pass (\<lambda>w. (Some (Failure 8), w))) (new_system ()))"
  have g': "fst (call_open_gate 2 9 ?t) = Returns True" by (simp add: example_defs)
  have sk': "\<not> effective_skip ?t 2" by (simp add: example_defs)
  have h': "\<not> run_lock (units ?t 2)" by (simp add: example_defs)
  have i': "\<not> is_initialized (units ?t 2)"
    "fst (initialize (units ?t 2) (world ?t)) = None"
    "fst (run (units ?t 2) (snd (initialize (units ?t 2) (world ?t)))) = Some (Failure 8)"
    "pool ?t = None"
    by (simp_all add: example_defs)
  note b = failure_in_body[OF g' sk' h', of "Failure 8", unfolded Let_def, THEN conjunct2,
      THEN conjunct1, rule_format, OF conjI[OF i'(1) conjI[OF i'(2) i'(3)]]]
  from a b show ?thesis
    by (simp add: i(3) i'(4))
qed

subsection \<open>Links\<close>

lemma dict_has_update: "dict_has k' (AList.update k v d) = (k' = k \<or> dict_has k' d)"
  by (auto simp: dict_has_def dom_update)

lemma dict_has_delete: "dict_has k' (AList.delete k d) = (k' \<noteq> k \<and> dict_has k' d)"
  by (auto simp: dict_has_def delete_keys simp flip: set_map)

lemma dict_has_Nil: "\<not> dict_has k []"
  by (simp add: dict_has_def)

lemma fresh_links_ok: "freshly_constructed s \<Longrightarrow> links_ok s"
  by (simp add: freshly_constructed_def links_ok_def bidirectional_def dict_has_def dict_keys_def)

lemma links_ok_link_from: "links_ok s \<Longrightarrow> links_ok (link_from self src s)"
  unfolding links_ok_def bidirectional_def link_from_def Let_def set_links_from_def
    set_links_to_def dict_keys_def
  by (auto simp: dict_has_update distinct_update)

lemma unlink_from_eq:
  assumes "\<not> gate_lock (units s self)"
  shows "unlink_from self src s =
     (Returns (),
      set_links_from self (AList.delete src (links_from (units s self)))
        (set_links_to src (AList.delete self (links_to (units s src))) s))"
proof -
  have a: "\<not> dict_has k d \<Longrightarrow> AList.delete k d = d" for k :: uid and d :: "(uid \<times> bool) list"
    by (simp add: dict_has_def)
  have b: "r\<lparr>gate_lock := False\<rparr> = r" if "\<not> gate_lock r" for r :: "'a Unit"
    using that by (cases r) simp
  show ?thesis
    using assms
    apply (simp add: unlink_from_def Let_def set_links_from_def set_links_to_def set_gate_lock_def)
    apply (cases "dict_has self (links_to (units s src))";
        cases "dict_has src (links_from (units s self))"; cases "src = self")
           apply (simp_all add: a b fun_upd_twist)
    done
qed

lemma links_ok_unlink_from:
  assumes "links_ok s"
  shows "fst (unlink_from self src s) = Returns () \<and> links_ok (snd (unlink_from self src s))"
proof -
  have f: "\<not> gate_lock (units s self)" using assms by (simp add: links_ok_def)
  show ?thesis
    using assms unfolding unlink_from_eq[OF f]
    unfolding links_ok_def bidirectional_def set_links_from_def set_links_to_def dict_keys_def
    by (auto simp: dict_has_delete distinct_delete)
qed

lemma del_links_to_eq:
  assumes "distinct srcs" "\<forall>src\<in>set srcs. dict_has self (links_to (units s src))"
  shows "del_links_to self srcs s =
     (Returns (),
      s\<lparr>units := \<lambda>u. if u \<in> set srcs
                      then (units s u)\<lparr>links_to := AList.delete self (links_to (units s u))\<rparr>
                      else units s u\<rparr>)"
  using assms
proof (induction srcs arbitrary: s)
  case Nil
  then show ?case by simp
next
  case (Cons a srcs)
  let ?s1 = "set_links_to a (AList.delete self (links_to (units s a))) s"
  have "distinct srcs" "\<forall>src\<in>set srcs. dict_has self (links_to (units ?s1 src))"
    using Cons.prems by (auto simp: set_links_to_def)
  from Cons.IH[OF this] Cons.prems show ?case
    by (auto simp: set_links_to_def fun_eq_iff)
qed

lemma del_links_from_eq:
  assumes "distinct dsts" "\<forall>dst\<in>set dsts. dict_has self (links_from (units s dst))"
  shows "del_links_from self dsts s =
     (Returns (),
      s\<lparr>units := \<lambda>u. if u \<in> set dsts
                      then (units s u)\<lparr>links_from := AList.delete self (links_from (units s u))\<rparr>
                      else units s u\<rparr>)"
  using assms
proof (induction dsts arbitrary: s)
  case Nil
  then show ?case by simp
next
  case (Cons a dsts)
  let ?s1 = "set_links_from a (AList.delete self (links_from (units s a))) s"
  have "distinct dsts" "\<forall>dst\<in>set dsts. dict_has self (links_from (units ?s1 dst))"
    using Cons.prems by (auto simp: set_links_from_def)
  from Cons.IH[OF this] Cons.prems show ?case
    by (auto simp: set_links_from_def fun_eq_iff)
qed

lemma unlink_from_all_eq:
  assumes ok: "links_ok s"
  shows "unlink_from_all self s =
     (Returns (),
      s\<lparr>units := \<lambda>u. if u = self then (units s u)\<lparr>links_from := [], links_to := []\<rparr>
                      else (units s u)
                             \<lparr>links_from := AList.delete self (links_from (units s u)),
                              links_to := AList.delete self (links_to (units s u))\<rparr>\<rparr>)"
proof -
  let ?s1 = "set_gate_lock self True s"
  let ?srcs = "dict_keys (links_from (units ?s1 self))"
  have free: "\<not> gate_lock (units s u)" for u using ok by (simp add: links_ok_def)
  have bi: "dict_has b (links_to (units s a)) = dict_has a (links_from (units s b))" for a b
    using ok by (simp add: links_ok_def bidirectional_def)
  have dist: "distinct (map fst (links_from (units s u)))" "distinct (map fst (links_to (units s u)))"
    for u using ok by (simp_all add: links_ok_def dict_keys_def)
  have nd: "\<not> dict_has k d \<Longrightarrow> AList.delete k d = d" for k :: uid and d :: "(uid \<times> bool) list"
    by (simp add: dict_has_def)
  have srcs: "?srcs = map fst (links_from (units s self))"
    by (simp add: dict_keys_def set_gate_lock_def)
  have 1: "distinct ?srcs" "\<forall>src\<in>set ?srcs. dict_has self (links_to (units ?s1 src))"
    using dist bi by (auto simp: set_gate_lock_def dict_has_def dict_keys_def)
  let ?s2 = "?s1\<lparr>units := \<lambda>u. if u \<in> set ?srcs
                      then (units ?s1 u)\<lparr>links_to := AList.delete self (links_to (units ?s1 u))\<rparr>
                      else units ?s1 u\<rparr>"
  have e1: "del_links_to self ?srcs ?s1 = (Returns (), ?s2)"
    by (rule del_links_to_eq[OF 1])
  let ?dsts = "dict_keys (links_to (units ?s2 self))"
  have in_srcs: "u \<in> set ?srcs \<longleftrightarrow> dict_has self (links_to (units s u))" for u
    using bi[of self u] by (simp add: dict_keys_def dict_has_def set_gate_lock_def)
  have lt2: "links_to (units ?s2 self) = AList.delete self (links_to (units s self))"
    unfolding in_srcs by (simp add: set_gate_lock_def nd)
  have lf2: "links_from (units ?s2 u) = links_from (units s u)" for u
    by (simp add: set_gate_lock_def)
  have in_dsts: "u \<in> set ?dsts \<longleftrightarrow> u \<noteq> self \<and> dict_has self (links_from (units s u))" for u
    unfolding lt2 using dict_has_delete[of u self "links_to (units s self)"] bi[of u self]
    by (simp add: dict_has_def dict_keys_def)
  have 2: "distinct ?dsts" "\<forall>dst\<in>set ?dsts. dict_has self (links_from (units ?s2 dst))"
  proof -
    show "distinct ?dsts"
      unfolding lt2 using dist by (simp add: dict_keys_def distinct_delete)
    show "\<forall>dst\<in>set ?dsts. dict_has self (links_from (units ?s2 dst))"
    proof (rule ballI)
      fix dst assume "dst \<in> set ?dsts"
      then have "dict_has self (links_from (units s dst))" by (simp only: in_dsts)
      then show "dict_has self (links_from (units ?s2 dst))" by (simp only: lf2)
    qed
  qed
  let ?s3 = "?s2\<lparr>units := \<lambda>u. if u \<in> set ?dsts
                      then (units ?s2 u)\<lparr>links_from := AList.delete self (links_from (units ?s2 u))\<rparr>
                      else units ?s2 u\<rparr>"
  have e2: "del_links_from self ?dsts ?s2 = (Returns (), ?s3)"
    by (rule del_links_from_eq[OF 2])
  have final: "set_gate_lock self False (set_links_to self [] (set_links_from self [] ?s3)) =
      s\<lparr>units := \<lambda>u. if u = self then (units s u)\<lparr>links_from := [], links_to := []\<rparr>
                      else (units s u)
                             \<lparr>links_from := AList.delete self (links_from (units s u)),
                              links_to := AList.delete self (links_to (units s u))\<rparr>\<rparr>"
  proof -
    have gl: "r\<lparr>gate_lock := False\<rparr> = r" if "\<not> gate_lock r" for r :: "'a Unit"
      using that by (cases r) simp
    show ?thesis
      unfolding in_dsts unfolding in_srcs
      using free
      by (auto simp: set_gate_lock_def set_links_to_def set_links_from_def fun_eq_iff gl nd)
  qed
  show ?thesis
    unfolding unlink_from_all_def using free[of self]
    by (simp only: if_False Let_def e1 e2 prod.case outcome.case final)
qed

lemma links_ok_unlink_from_all:
  assumes "links_ok s"
  shows "fst (unlink_from_all self s) = Returns () \<and> links_ok (snd (unlink_from_all self s))"
  using assms unfolding unlink_from_all_eq[OF assms]
  unfolding links_ok_def bidirectional_def dict_keys_def
  by (auto simp: dict_has_delete dict_has_Nil distinct_delete)

lemma links_ok_apply_link_op:
  assumes "links_ok s"
  shows "fst (apply_link_op x s) = Returns () \<and> links_ok (snd (apply_link_op x s))"
  using assms
  by (cases x) (simp_all add: links_ok_link_from links_ok_unlink_from links_ok_unlink_from_all)

lemma links_ok_apply_link_ops:
  "links_ok s \<Longrightarrow>
   fst (apply_link_ops ops s) = Returns () \<and> links_ok (snd (apply_link_ops ops s))"
proof (induction ops arbitrary: s)
  case Nil
  then show ?case by simp
next
  case (Cons x ops)
  obtain s1 where s1: "apply_link_op x s = (Returns (), s1)" "links_ok s1"
    using links_ok_apply_link_op[OF Cons.prems, of x] by (cases "apply_link_op x s") auto
  then show ?case using Cons.IH[OF s1(2)] by simp
qed

lemma unlink_from_absent:
  assumes "links_ok s" "\<not> dict_has src (links_from (units s self))"
  shows "unlink_from self src s = (Returns (), s)"
proof -
  have f: "\<not> gate_lock (units s self)" using assms by (simp add: links_ok_def)
  have "\<not> dict_has self (links_to (units s src))"
    using assms by (simp add: links_ok_def bidirectional_def)
  with assms(2) show ?thesis
    unfolding unlink_from_eq[OF f]
    by (simp add: dict_has_def set_links_from_def set_links_to_def)
qed

text \<open>
  Claim C7. Starting from freshly constructed units, after any sequence of
  \<open>link_from\<close>, \<open>unlink_from\<close> and \<open>unlink_from_all\<close> (so after every one of
  them) every operation has returned normally and, for all units \<open>A\<close> and \<open>B\<close>,
  \<open>B\<close> is a key of \<open>A.links_to\<close> exactly when \<open>A\<close> is a key of \<open>B.links_from\<close>.
  In such a state \<open>unlink_from\<close> of an edge that does not exist returns with the
  state unchanged.
\<close>

theorem links_stay_bidirectional:
  assumes "freshly_constructed s"
  shows "fst (apply_link_ops ops s) = Returns () \<and>
         bidirectional (snd (apply_link_ops ops s)) \<and>
         (\<not> dict_has src (links_from (units (snd (apply_link_ops ops s)) self)) \<longrightarrow>
            unlink_from self src (snd (apply_link_ops ops s)) =
              (Returns (), snd (apply_link_ops ops s)))"
  using links_ok_apply_link_ops[OF fresh_links_ok[OF assms], of ops]
  by (auto simp: unlink_from_absent links_ok_def)

lemma new_system_fresh: "freshly_constructed (new_system w)"
  by (simp add: freshly_constructed_def new_system_def new_unit_def)

theorem links_stay_bidirectional_witness:
  "fst (apply_link_ops [LinkFrom 3 2, LinkFrom 4 2, LinkFrom 4 3, UnlinkFrom 4 2, UnlinkFromAll 3]
         (new_system ())) = Returns () \<and>
   bidirectional
     (snd (apply_link_ops [LinkFrom 3 2, LinkFrom 4 2, LinkFrom 4 3, UnlinkFrom 4 2, UnlinkFromAll 3]
         (new_system ()))) \<and>
   unlink_from 5 2 (snd (apply_link_ops [LinkFrom 5 4, LinkFrom 4 2] (new_system ()))) =
     (Returns (), snd (apply_link_ops [LinkFrom 5 4, LinkFrom 4 2] (new_system ())))"
proof -
  have a: "\<not> dict_has 2
          (links_from (units (snd (apply_link_ops [LinkFrom 5 4, LinkFrom 4 2] (new_system ()))) 5))"
    by (simp add: link_from_def new_system_def new_unit_def set_links_from_def set_links_to_def
        dict_has_def)
  note r1 = links_stay_bidirectional[OF new_system_fresh[of "()"],
      where ops = "[LinkFrom 3 2, LinkFrom 4 2, LinkFrom 4 3, UnlinkFrom 4 2, UnlinkFromAll 3]"]
  note r2 = links_stay_bidirectional[OF new_system_fresh[of "()"],
      where ops = "[LinkFrom 5 4, LinkFrom 4 2]" and src = 2 and self = 5,
      THEN conjunct2, THEN conjunct2, rule_format, OF a]
  from r1[THEN conjunct1] r1[THEN conjunct2, THEN conjunct1] r2
  show ?thesis by (intro conjI)
qed

subsection \<open>Pickling\<close>

lemma update_absent: "k \<notin> fst ` set d \<Longrightarrow> AList.update k v d = d @ [(k, v)]"
  by (induction d) auto

lemma persisted_fst: "fst (persisted p) = fst p"
  by (simp add: persisted_def)

lemma getstate_loop_eq:
  assumes "\<forall>p\<in>set items. fst p \<noteq> []" "distinct (map fst items)"
    "fst ` set items \<inter> fst ` set state = {}"
  shows "getstate_loop items state = Returns (state @ map persisted items)"
  using assms
proof (induction items arbitrary: state)
  case Nil
  then show ?case by simp
next
  case (Cons p items)
  obtain k v where p: "p = (k, v)" by (cases p)
  have k: "k \<noteq> []" "k \<notin> fst ` set state" "k \<notin> fst ` set items"
    using Cons.prems by (auto simp: p)
  have l: "k ! (length k - Suc 0) = last k" using k(1) by (simp add: last_conv_nth)
  have step: "getstate_loop (p # items) state =
              getstate_loop items (state @ [persisted p])"
    using k by (auto simp: p l persisted_def update_absent)
  have "fst ` set items \<inter> fst ` set (state @ [persisted p]) = {}"
    using Cons.prems k by (auto simp: p persisted_def)
  with Cons.IH[of "state @ [persisted p]"] Cons.prems show ?case
    by (simp add: step)
qed

lemma getstate_eq:
  assumes "distinct (dict_keys d)" "\<forall>k\<in>set (dict_keys d). k \<noteq> []"
  shows "getstate d = Returns (map persisted d)"
  using assms getstate_loop_eq[of d "[]"] by (simp add: getstate_def dict_keys_def)

lemma map_of_persisted:
  assumes "distinct (map fst d)" "(k, v) \<in> set d"
  shows "map_of (map persisted d) k =
         Some (if last k = CHR ''_'' \<or> callable v then ANone else v)"
proof -
  have "distinct (map fst (map persisted d))"
    using assms(1) by (simp add: comp_def persisted_fst)
  moreover have "(k, if last k = CHR ''_'' \<or> callable v then ANone else v) \<in> set (map persisted d)"
    using assms(2) by (force simp: persisted_def)
  ultimately show ?thesis by (rule map_of_is_SomeI)
qed

lemma init_unpickled_attrs:
  "map_of (fst (init_unpickled logger self p)) ''gate_lock_'' = Some (ALock False) \<and>
   map_of (fst (init_unpickled logger self p)) ''run_lock_'' = Some (ALock False) \<and>
   map_of (fst (init_unpickled logger self p)) ''is_initialized'' = Some (AValue (PyBool False))"
  by (simp add: init_unpickled_def Let_def update_conv')

text \<open>
  Claim C8, as amended. For an object whose attribute names are distinct and not
  empty, \<open>__getstate__\<close> returns a state with every attribute name, in the same
  order: a name that ends with an underscore, or whose value is callable, is stored
  with the value \<open>None\<close> in place of its value, and every other attribute is
  stored as it is. After \<open>__setstate__\<close>, whatever the state restored,
  \<open>gate_lock_\<close> and \<open>run_lock_\<close> are new free locks and \<open>is_initialized\<close> is
  false.
\<close>

theorem getstate_stores_None:
  assumes "distinct (dict_keys d)" "\<forall>k\<in>set (dict_keys d). k \<noteq> []"
  shows "getstate d = Returns (map persisted d) \<and>
         dict_keys (map persisted d) = dict_keys d \<and>
         (\<forall>k v. (k, v) \<in> set d \<longrightarrow>
            map_of (map persisted d) k =
              Some (if last k = CHR ''_'' \<or> callable v then ANone else v)) \<and>
         map_of (fst (setstate logger self state p)) ''gate_lock_'' = Some (ALock False) \<and>
         map_of (fst (setstate logger self state p)) ''run_lock_'' = Some (ALock False) \<and>
         map_of (fst (setstate logger self state p)) ''is_initialized'' =
           Some (AValue (PyBool False))"
  using assms getstate_eq[OF assms] map_of_persisted[of d] init_unpickled_attrs
  by (auto simp: dict_keys_def comp_def persisted_fst setstate_def)

text \<open>
  Claim C8, as stated, says that the pickled state excludes the attributes whose
  name ends with an underscore and those whose value is callable. The state keeps
  them, with the value \<open>None\<close>: \<open>gate_lock_\<close> and \<open>run\<close> are keys of the state.
\<close>

theorem getstate_keeps_transient_names:
  "getstate [(''gate_lock_'', ALock False), (''run'', ACallable 0),
             (''is_initialized'', AValue (PyBool True))] =
     Returns [(''gate_lock_'', ANone), (''run'', ANone),
              (''is_initialized'', AValue (PyBool True))] \<and>
   dict_has ''gate_lock_'' [(''gate_lock_'', ANone), (''run'', ANone),
              (''is_initialized'', AValue (PyBool True))] \<and>
   dict_has ''run'' [(''gate_lock_'', ANone), (''run'', ANone),
              (''is_initialized'', AValue (PyBool True))]"
  by (simp add: getstate_def dict_has_def)

theorem getstate_stores_None_witness:
  "getstate [(''gate_lock_'', ALock True), (''run'', ACallable 0),
             (''is_initialized'', AValue (PyBool True)), (''links_from'', ALinks [(3, False)])] =
     Returns [(''gate_lock_'', ANone), (''run'', ANone),
              (''is_initialized'', AValue (PyBool True)), (''links_from'', ALinks [(3, False)])] \<and>
   map_of (fst (setstate None 2
                  [(''gate_lock_'', ANone), (''run'', ANone),
                   (''is_initialized'', AValue (PyBool True)),
                   (''links_from'', ALinks [(3, False)])] ([], [])))
     ''is_initialized'' = Some (AValue (PyBool False))"
proof -
  let ?d = "[(''gate_lock_'', ALock True), (''run'', ACallable 0),
             (''is_initialized'', AValue (PyBool True)), (''links_from'', ALinks [(3, False)])]"
  have h: "distinct (dict_keys ?d)" "\<forall>k\<in>set (dict_keys ?d). k \<noteq> []"
    by (simp_all add: dict_keys_def)
  note r = getstate_stores_None[OF h, where logger = None and self = 2 and p = "([], [])"
      and state = "[(''gate_lock_'', ANone), (''run'', ANone),
                   (''is_initialized'', AValue (PyBool True)),
                   (''links_from'', ALinks [(3, False)])]"]
  from r[THEN conjunct1] r[THEN conjunct2, THEN conjunct2, THEN conjunct2, THEN conjunct2,
      THEN conjunct2]
  show ?thesis by (simp add: persisted_def)
qed

subsection \<open>Initialization of the dependent units\<close>

lemma initialization_only_refl: "initialization_only r s s"
  unfolding initialization_only_def by (auto intro: exI[of _ "[]"])

lemma initialization_only_trans:
  assumes "initialization_only (Returns ()) s t" "initialization_only r t v"
  shows "initialization_only r s v"
proof -
  from assms(1) obtain us where us: "events t = events s @ map Initialize us"
    "\<forall>u\<in>set us. \<not> is_initialized (units s u)" "\<forall>u\<in>set us. is_initialized (units t u)"
    unfolding initialization_only_def by auto
  from assms(2) obtain vs where vs: "events v = events t @ map Initialize vs"
    "\<forall>u\<in>set vs. \<not> is_initialized (units t u)"
    "r = Returns () \<longrightarrow> (\<forall>u\<in>set vs. is_initialized (units v u))"
    unfolding initialization_only_def by auto
  have keep: "is_initialized (units s u) \<Longrightarrow> units t u = units s u" for u
    using assms(1) unfolding initialization_only_def by blast
  have keep2: "is_initialized (units t u) \<Longrightarrow> units v u = units t u" for u
    using assms(2) unfolding initialization_only_def by blast
  have e: "events v = events s @ map Initialize (us @ vs)"
    by (simp add: us vs)
  have a: "\<forall>u\<in>set (us @ vs). \<not> is_initialized (units s u)"
    using us(2) vs(2) keep by auto
  have b: "r = Returns () \<longrightarrow> (\<forall>u\<in>set (us @ vs). is_initialized (units v u))"
    using us(3) vs(3) keep2 by auto
  have "\<exists>ws. events v = events s @ map Initialize ws \<and>
            (\<forall>u\<in>set ws. \<not> is_initialized (units s u)) \<and>
            (r = Returns () \<longrightarrow> (\<forall>u\<in>set ws. is_initialized (units v u)))"
    using e a b by blast
  moreover have "pool v = pool s" "pool_lock v = pool_lock s"
    "\<forall>u. links_to (units v u) = links_to (units s u)"
    "\<forall>u. is_initialized (units s u) \<longrightarrow> units v u = units s u"
    using assms keep keep2 unfolding initialization_only_def by auto
  ultimately show ?thesis unfolding initialization_only_def by blast
qed

lemma initialization_only_weaken:
  "initialization_only (Returns ()) s t \<Longrightarrow> initialization_only r s t"
  unfolding initialization_only_def by auto

lemma gate_step:
  assumes "\<not> is_initialized (units s dst)" "gate_only dst s s1"
  shows "initialization_only (Returns ()) s s1"
proof -
  note f = gate_frame_fields[OF assms(2)]
  have "units s1 u = units s u" if "is_initialized (units s u)" for u
    using that assms(1) f(14)[of u] by (cases "u = dst") auto
  then show ?thesis
    unfolding initialization_only_def using f by (auto intro: exI[of _ "[]"])
qed

lemma call_initialize_cases:
  obtains (ok) "call_initialize dst s =
                  (Returns (), s\<lparr>world := snd (initialize (units s dst) (world s)),
                                 events := events s @ [Initialize dst]\<rparr>)"
  | (raises) e where "call_initialize dst s =
                  (Raises e, s\<lparr>world := snd (initialize (units s dst) (world s)),
                                events := events s @ [Initialize dst]\<rparr>)"
  by (cases "initialize (units s dst) (world s)"; cases "fst (initialize (units s dst) (world s))")
     (auto simp: call_initialize_def)

lemma initialize_step:
  assumes "\<not> is_initialized (units s dst)"
  shows "initialization_only (Returns ()) s
           (set_is_initialized dst True
              (s\<lparr>world := w, events := events s @ [Initialize dst]\<rparr>))"
  unfolding initialization_only_def using assms
  by (auto simp: set_is_initialized_def intro!: exI[of _ "[dst]"])

lemma initialize_raises_step:
  assumes "\<not> is_initialized (units s dst)"
  shows "initialization_only (Raises e) s (s\<lparr>world := w, events := events s @ [Initialize dst]\<rparr>)"
  unfolding initialization_only_def using assms
  by (auto intro!: exI[of _ "[dst]"])

lemma initialize_dependent_loop_only:
  "initialize_dependent_loop n self ds s = Some (r, t) \<Longrightarrow> initialization_only r s t"
proof (induction n self ds s arbitrary: r t rule: initialize_dependent_loop.induct)
  case (1 n self s)
  then show ?case by (simp add: initialization_only_refl)
next
  case (2 n self dst rest s)
  show ?case
  proof (cases "is_initialized (units s dst)")
    case True
    with 2 show ?thesis by simp
  next
    case False
    obtain g s1 where g: "call_open_gate dst self s = (g, s1)" by (cases "call_open_gate dst self s")
    have go: "gate_only dst s s1" using call_open_gate_frame[of dst s self] g by simp
    have r1: "initialization_only (Returns ()) s s1" by (rule gate_step[OF False go])
    have ni1: "\<not> is_initialized (units s1 dst)" using False gate_frame_fields(6)[OF go] by simp
    show ?thesis
    proof (cases g)
      case Blocks
      with 2(5) False g have "r = Blocks" "t = s1" by auto
      with r1 show ?thesis by (simp add: initialization_only_weaken)
    next
      case (Raises e)
      with 2(5) False g have "r = Raises e" "t = s1" by auto
      with r1 show ?thesis by (simp add: initialization_only_weaken)
    next
      case (Returns b)
      show ?thesis
      proof (cases b)
        case False': False
        then have bF: "b = False" by simp
        have "initialize_dependent_loop n self rest s1 = Some (r, t)"
          using 2(5) False g Returns bF by simp
        from 2(4)[OF False g[symmetric] Returns bF this]
        show ?thesis using r1 initialization_only_trans by blast
      next
        case True
        then have bT: "b = True" by simp
        let ?s2 = "s1\<lparr>world := snd (initialize (units s1 dst) (world s1)),
                      events := events s1 @ [Initialize dst]\<rparr>"
        show ?thesis
        proof (cases rule: call_initialize_cases[of dst s1])
          case (raises e)
          with 2(5) False g Returns True have "r = Raises e" "t = ?s2" by auto
          then show ?thesis
            using r1 initialize_raises_step[OF ni1] initialization_only_trans by blast
        next
          case ok
          let ?s3 = "set_is_initialized dst True ?s2"
          have r2: "initialization_only (Returns ()) s ?s3"
            using r1 initialize_step[OF ni1] initialization_only_trans by blast
          show ?thesis
          proof (cases n)
            case 0
            with 2(5) False g Returns True ok show ?thesis by simp
          next
            case (Suc m)
            let ?nested = "initialize_dependent_loop m dst (dict_keys (links_to (units ?s3 dst))) ?s3"
            have unfold: "initialize_dependent_loop n self (dst # rest) s =
                  (case ?nested of None \<Rightarrow> None
                   | Some (Returns x, s3) \<Rightarrow> initialize_dependent_loop (Suc m) self rest s3
                   | Some (Raises e, s3) \<Rightarrow> Some (Raises e, s3)
                   | Some (Blocks, s3) \<Rightarrow> Some (Blocks, s3))"
              using False g Returns True ok Suc by simp
            show ?thesis
            proof (cases ?nested)
              case None
              with 2(5) unfold show ?thesis by simp
            next
              case (Some p)
              obtain q s4 where p: "p = (q, s4)" by (cases p)
              have r3: "initialization_only q ?s3 s4"
                using 2(2)[OF False g[symmetric] Returns bT ok[symmetric] refl Suc] Some p
                by simp
              show ?thesis
              proof (cases q)
                case (Returns x)
                then have r3': "initialization_only (Returns ()) ?s3 s4" using r3 by simp
                have "initialize_dependent_loop n self rest s4 = Some (r, t)"
                  using 2(5) unfold Some p Returns Suc by simp
                from 2(3)[OF False g[symmetric] \<open>g = Returns b\<close> bT ok[symmetric] refl Suc
                    Some p[symmetric] Returns this]
                show ?thesis
                  using r2 r3' initialization_only_trans by blast
              next
                case (Raises e)
                with 2(5) unfold Some p have "r = Raises e" "t = s4" by auto
                with r3 Raises r2 initialization_only_trans show ?thesis by blast
              next
                case Blocks
                with 2(5) unfold Some p have "r = Blocks" "t = s4" by auto
                with r3 Blocks r2 initialization_only_trans show ?thesis by blast
              qed
            qed
          qed
        qed
      qed
    qed
  qed
qed

lemma only_preserves:
  assumes "initialization_only r s t" "closed_under_links R s"
  shows "closed_under_links R t" "not_initialized R t \<subseteq> not_initialized R s"
proof -
  have l: "links_to (units t u) = links_to (units s u)" for u
    using assms(1) unfolding initialization_only_def by blast
  have k: "is_initialized (units s u) \<Longrightarrow> units t u = units s u" for u
    using assms(1) unfolding initialization_only_def by blast
  show "closed_under_links R t"
    using assms(2) by (simp add: closed_under_links_def l)
  show "not_initialized R t \<subseteq> not_initialized R s"
    unfolding not_initialized_def using k by force
qed

lemma enough_fuel:
  assumes "finite R"
  shows "closed_under_links R s \<Longrightarrow> set ds \<subseteq> R \<Longrightarrow> card (not_initialized R s) \<le> n \<Longrightarrow>
         initialize_dependent_loop n self ds s \<noteq> None"
proof (induction n self ds s rule: initialize_dependent_loop.induct)
  case (1 n self s)
  then show ?case by simp
next
  case (2 n self dst rest s)
  have fin: "finite (not_initialized R t)" for t :: "'a system"
    using assms by (simp add: not_initialized_def)
  have rest: "set rest \<subseteq> R" and dst: "dst \<in> R" using 2(6) by auto
  show ?case
  proof (cases "is_initialized (units s dst)")
    case True
    with 2(1)[OF True 2(5) rest 2(7)] show ?thesis by simp
  next
    case False
    obtain g s1 where g: "call_open_gate dst self s = (g, s1)" by (cases "call_open_gate dst self s")
    have go: "gate_only dst s s1" using call_open_gate_frame[of dst s self] g by simp
    have r1: "initialization_only (Returns ()) s s1" by (rule gate_step[OF False go])
    have ni1: "\<not> is_initialized (units s1 dst)" using False gate_frame_fields(6)[OF go] by simp
    note p1 = only_preserves[OF r1 2(5)]
    have c1: "card (not_initialized R s1) \<le> n"
      using p1(2) 2(7) card_mono[OF fin] by (meson le_trans)
    show ?thesis
    proof (cases g)
      case Blocks
      with False g show ?thesis by simp
    next
      case (Raises e)
      with False g show ?thesis by simp
    next
      case (Returns b)
      show ?thesis
      proof (cases b)
        case False': False
        then have bF: "b = False" by simp
        from 2(4)[OF False g[symmetric] Returns bF p1(1) rest c1]
        show ?thesis using False g Returns bF by simp
      next
        case True
        then have bT: "b = True" by simp
        let ?s2 = "s1\<lparr>world := snd (initialize (units s1 dst) (world s1)),
                      events := events s1 @ [Initialize dst]\<rparr>"
        show ?thesis
        proof (cases rule: call_initialize_cases[of dst s1])
          case (raises e)
          with False g Returns True show ?thesis by simp
        next
          case ok
          let ?s3 = "set_is_initialized dst True ?s2"
          have r2: "initialization_only (Returns ()) s ?s3"
            using r1 initialize_step[OF ni1] initialization_only_trans by blast
          note p3 = only_preserves[OF r2 2(5)]
          have "dst \<in> not_initialized R s" "dst \<notin> not_initialized R ?s3"
            using dst False by (simp_all add: not_initialized_def set_is_initialized_def)
          then have "not_initialized R ?s3 \<subset> not_initialized R s" using p3(2) by blast
          then have lt: "card (not_initialized R ?s3) < card (not_initialized R s)"
            by (rule psubset_card_mono[OF fin])
          then obtain m where Suc: "n = Suc m" using 2(7) by (cases n) auto
          have c3: "card (not_initialized R ?s3) \<le> m" using lt 2(7) Suc by simp
          have sub: "set (dict_keys (links_to (units ?s3 dst))) \<subseteq> R"
            using p3(1) dst by (simp add: closed_under_links_def)
          let ?nested = "initialize_dependent_loop m dst (dict_keys (links_to (units ?s3 dst))) ?s3"
          have unfold: "initialize_dependent_loop n self (dst # rest) s =
                  (case ?nested of None \<Rightarrow> None
                   | Some (Returns x, s3) \<Rightarrow> initialize_dependent_loop (Suc m) self rest s3
                   | Some (Raises e, s3) \<Rightarrow> Some (Raises e, s3)
                   | Some (Blocks, s3) \<Rightarrow> Some (Blocks, s3))"
            using False g Returns True ok Suc by simp
          have "?nested \<noteq> None"
            by (rule 2(2)[OF False g[symmetric] Returns bT ok[symmetric] refl Suc p3(1) sub c3])
          then obtain q s4 where n4: "?nested = Some (q, s4)" by auto
          have r4: "initialization_only q ?s3 s4"
            by (rule initialize_dependent_loop_only[OF n4])
          note p4 = only_preserves[OF r4 p3(1)]
          have c4: "card (not_initialized R s4) \<le> n"
            using p4(2) p3(2) 2(7) card_mono[OF fin, of "not_initialized R s4" s]
            by (meson le_trans subset_trans)
          show ?thesis
          proof (cases q)
            case (Returns x)
            from 2(3)[OF False g[symmetric] \<open>g = Returns b\<close> bT ok[symmetric] refl Suc n4 refl
                Returns p4(1) rest c4]
            show ?thesis using unfold n4 Returns Suc by simp
          next
            case (Raises e)
            then show ?thesis using unfold n4 by simp
          next
            case Blocks
            then show ?thesis using unfold n4 by simp
          qed
        qed
      qed
    qed
  qed
qed

lemma more_fuel:
  "initialize_dependent_loop n self ds s = Some x \<Longrightarrow> n \<le> n' \<Longrightarrow>
   initialize_dependent_loop n' self ds s = Some x"
proof (induction n self ds s arbitrary: n' x rule: initialize_dependent_loop.induct)
  case (1 n self s)
  then show ?case by simp
next
  case (2 n self dst rest s)
  show ?case
  proof (cases "is_initialized (units s dst)")
    case True
    with 2(1)[OF True _ 2(6)] 2(5) show ?thesis by simp
  next
    case False
    obtain g s1 where g: "call_open_gate dst self s = (g, s1)" by (cases "call_open_gate dst self s")
    show ?thesis
    proof (cases g)
      case Blocks
      with 2(5) False g have "x = (Blocks, s1)" by simp
      then show ?thesis using False g Blocks by simp
    next
      case (Raises e)
      with 2(5) False g have "x = (Raises e, s1)" by simp
      then show ?thesis using False g Raises by simp
    next
      case (Returns b)
      show ?thesis
      proof (cases b)
        case False': False
        then have bF: "b = False" by simp
        have "initialize_dependent_loop n self rest s1 = Some x"
          using 2(5) False g Returns bF by simp
        from 2(4)[OF False g[symmetric] Returns bF this 2(6)]
        show ?thesis using False g Returns bF by simp
      next
        case True
        then have bT: "b = True" by simp
        let ?s2 = "s1\<lparr>world := snd (initialize (units s1 dst) (world s1)),
                      events := events s1 @ [Initialize dst]\<rparr>"
        show ?thesis
        proof (cases rule: call_initialize_cases[of dst s1])
          case (raises e)
          with 2(5) False g Returns True have "x = (Raises e, ?s2)" by simp
          then show ?thesis using False g Returns True raises by simp
        next
          case ok
          let ?s3 = "set_is_initialized dst True ?s2"
          show ?thesis
          proof (cases n)
            case 0
            with 2(5) False g Returns True ok show ?thesis by simp
          next
            case (Suc m)
            then obtain m' where Suc': "n' = Suc m'" "m \<le> m'" using 2(6) by (cases n') auto
            let ?nested = "\<lambda>k. initialize_dependent_loop k dst
                                  (dict_keys (links_to (units ?s3 dst))) ?s3"
            have unfold: "initialize_dependent_loop (Suc k) self (dst # rest) s =
                  (case ?nested k of None \<Rightarrow> None
                   | Some (Returns x, s3) \<Rightarrow> initialize_dependent_loop (Suc k) self rest s3
                   | Some (Raises e, s3) \<Rightarrow> Some (Raises e, s3)
                   | Some (Blocks, s3) \<Rightarrow> Some (Blocks, s3))" for k
              using False g Returns True ok by simp
            show ?thesis
            proof (cases "?nested m")
              case None
              with 2(5) unfold[of m] Suc show ?thesis by simp
            next
              case (Some p)
              obtain q s4 where p: "p = (q, s4)" by (cases p)
              have n': "?nested m' = Some (q, s4)"
                using 2(2)[OF False g[symmetric] Returns bT ok[symmetric] refl Suc _ Suc'(2)]
                  Some p by simp
              show ?thesis
              proof (cases q)
                case (Returns y)
                have "initialize_dependent_loop n self rest s4 = Some x"
                  using 2(5) unfold[of m] Some p Returns Suc by simp
                from 2(3)[OF False g[symmetric] \<open>g = Returns b\<close> bT ok[symmetric] refl Suc
                    Some p[symmetric] Returns this 2(6)]
                show ?thesis using unfold[of m'] n' Returns Suc' by simp
              next
                case (Raises e)
                with 2(5) unfold[of m] Some p Suc have "x = (Raises e, s4)" by simp
                then show ?thesis using unfold[of m'] n' Raises Suc' by simp
              next
                case Blocks
                with 2(5) unfold[of m] Some p Suc have "x = (Blocks, s4)" by simp
                then show ?thesis using unfold[of m'] n' Blocks Suc' by simp
              qed
            qed
          qed
        qed
      qed
    qed
  qed
qed

lemma initialization_only_events:
  assumes "initialization_only r s t"
  shows "Run u \<in> set (events t) \<longrightarrow> Run u \<in> set (events s)"
  using assms unfolding initialization_only_def by auto

text \<open>
  Claim C9. \<open>initialize_dependent\<close> visits the successors in the order of
  \<open>links_to\<close>, depth first, in the caller: a successor that is initialized is
  passed over; for any other its gate is checked with the current unit as source,
  a closed gate ends the visit of that successor, and an open gate is followed by
  its \<open>initialize()\<close>, the flag \<open>is_initialized\<close>, and the traversal of its own
  successors before the next sibling. Whatever the traversal returns, the events it
  added are calls of \<open>initialize()\<close> on units that were not initialized, each
  initialized afterwards when the traversal returns normally; no \<open>run()\<close> is
  called, nothing is submitted to the pool, and a unit that was initialized before
  is unchanged. On a finite set of units closed under the links the traversal
  returns: a depth bound of the number of units not yet initialized is enough, and
  a larger bound gives the same result.
\<close>

theorem initialize_dependent_visits:
  assumes "finite R" "self \<in> R" "closed_under_links R s"
  shows
    "(\<forall>n. card (not_initialized R s) \<le> n \<longrightarrow> initialize_dependent n self s \<noteq> None) \<and>
     (\<forall>n r t. initialize_dependent n self s = Some (r, t) \<longrightarrow>
        initialization_only r s t \<and>
        (\<forall>u. Run u \<in> set (events t) \<longrightarrow> Run u \<in> set (events s))) \<and>
     (is_initialized (units s dst) \<longrightarrow>
        initialize_dependent_loop n self (dst # rest) s =
          initialize_dependent_loop n self rest s) \<and>
     (\<not> is_initialized (units s dst) \<and> fst (call_open_gate dst self s) = Returns False \<longrightarrow>
        initialize_dependent_loop n self (dst # rest) s =
          initialize_dependent_loop n self rest (snd (call_open_gate dst self s))) \<and>
     (\<not> is_initialized (units s dst) \<and> fst (call_open_gate dst self s) = Returns True \<and>
      fst (call_initialize dst (snd (call_open_gate dst self s))) = Returns () \<longrightarrow>
        initialize_dependent_loop (Suc m) self (dst # rest) s =
          (case initialize_dependent m dst
                  (set_is_initialized dst True
                     (snd (call_initialize dst (snd (call_open_gate dst self s))))) of
             None \<Rightarrow> None
           | Some (Returns x, s3) \<Rightarrow> initialize_dependent_loop (Suc m) self rest s3
           | Some (Raises e, s3) \<Rightarrow> Some (Raises e, s3)
           | Some (Blocks, s3) \<Rightarrow> Some (Blocks, s3))) \<and>
     (\<forall>n n' x. initialize_dependent n self s = Some x \<and> n \<le> n' \<longrightarrow>
        initialize_dependent n' self s = Some x)"
proof (intro conjI allI impI)
  fix n assume "card (not_initialized R s) \<le> n"
  moreover have "set (dict_keys (links_to (units s self))) \<subseteq> R"
    using assms(2,3) by (simp add: closed_under_links_def)
  ultimately show "initialize_dependent n self s \<noteq> None"
    unfolding initialize_dependent_def using enough_fuel[OF assms(1,3)] by blast
next
  fix n r t assume a: "initialize_dependent n self s = Some (r, t)"
  then show "initialization_only r s t"
    unfolding initialize_dependent_def by (rule initialize_dependent_loop_only)
  then show "Run u \<in> set (events t) \<Longrightarrow> Run u \<in> set (events s)" for u
    using initialization_only_events by blast
next
  assume "is_initialized (units s dst)"
  then show "initialize_dependent_loop n self (dst # rest) s =
          initialize_dependent_loop n self rest s" by simp
next
  assume "\<not> is_initialized (units s dst) \<and> fst (call_open_gate dst self s) = Returns False"
  then show "initialize_dependent_loop n self (dst # rest) s =
          initialize_dependent_loop n self rest (snd (call_open_gate dst self s))"
    by (cases "call_open_gate dst self s") simp
next
  assume a: "\<not> is_initialized (units s dst) \<and> fst (call_open_gate dst self s) = Returns True \<and>
      fst (call_initialize dst (snd (call_open_gate dst self s))) = Returns ()"
  obtain s1 where s1: "call_open_gate dst self s = (Returns True, s1)"
    using a by (cases "call_open_gate dst self s") auto
  obtain s2 where s2: "call_initialize dst s1 = (Returns (), s2)"
    using a s1 by (cases "call_initialize dst s1") auto
  show "initialize_dependent_loop (Suc m) self (dst # rest) s =
          (case initialize_dependent m dst
                  (set_is_initialized dst True
                     (snd (call_initialize dst (snd (call_open_gate dst self s))))) of
             None \<Rightarrow> None
           | Some (Returns x, s3) \<Rightarrow> initialize_dependent_loop (Suc m) self rest s3
           | Some (Raises e, s3) \<Rightarrow> Some (Raises e, s3)
           | Some (Blocks, s3) \<Rightarrow> Some (Blocks, s3))"
    using a by (simp add: s1 s2 initialize_dependent_def)
next
  fix n n' x
  assume "initialize_dependent n self s = Some x \<and> n \<le> n'"
  then show "initialize_dependent n' self s = Some x"
    unfolding initialize_dependent_def using more_fuel by blast
qed

theorem initialize_dependent_visits_witness:
  "initialize_dependent (card (not_initialized {2, 3, 4, 5, 6} example_graph)) 2 example_graph \<noteq> None \<and>
   initialization_only (Returns ()) example_graph (snd (the (initialize_dependent 3 2 example_graph))) \<and>
   events (snd (the (initialize_dependent 3 2 example_graph))) = [Initialize 3, Initialize 4]"
proof -
  have h: "finite {2, 3, 4, 5, 6 :: uid}" "2 \<in> {2, 3, 4, 5, 6 :: uid}"
    "closed_under_links {2, 3, 4, 5, 6} example_graph"
    by (simp_all add: closed_under_links_def example_graph_def example_defs)
  note r = initialize_dependent_visits[OF h]
  have a: "initialize_dependent (card (not_initialized {2, 3, 4, 5, 6} example_graph)) 2 example_graph \<noteq> None"
    using r[THEN conjunct1] by blast
  have e: "initialize_dependent 3 2 example_graph \<noteq> None"
    "fst (the (initialize_dependent 3 2 example_graph)) = Returns ()"
    "events (snd (the (initialize_dependent 3 2 example_graph))) = [Initialize 3, Initialize 4]"
    by (simp_all add: example_graph_def initialize_dependent_def example_defs reset_flags_def
        call_initialize_def set_is_initialized_def)
  then have "initialize_dependent 3 2 example_graph =
             Some (Returns (), snd (the (initialize_dependent 3 2 example_graph)))"
    by (cases "initialize_dependent 3 2 example_graph") auto
  from r[THEN conjunct2, THEN conjunct1, rule_format, OF this, THEN conjunct1] a e(3)
  show ?thesis by (intro conjI)
qed

end
